theory Spec2Isabelle
  imports Complex_Main "HOL-Library.Word"
begin

section \<open>Timers\<close>

text \<open>
  \<^verbatim>\<open>setTimeout(cb, d)\<close> called at time \<open>now\<close> makes the callback due at \<open>now + d\<close>.
  The pending timers are kept in firing order: by due time, and among equal due times
  in the order of the \<^verbatim>\<open>setTimeout\<close> calls. Time is counted in milliseconds, a callback
  runs at its due time and takes no time.
\<close>

type_synonym 'cb timer = "nat \<times> 'cb"

fun enqueue :: "'cb timer \<Rightarrow> 'cb timer list \<Rightarrow> 'cb timer list" where
  "enqueue x [] = [x]"
| "enqueue x (y # ys) = (if fst x < fst y then x # y # ys else y # enqueue x ys)"

definition setTimeout :: "'cb \<Rightarrow> nat \<Rightarrow> nat \<Rightarrow> 'cb timer list \<Rightarrow> 'cb timer list" where
  "setTimeout cb d now q = enqueue (now + d, cb) q"

section \<open>The text fading sequencer (\<^verbatim>\<open>initTextFading\<close>)\<close>

text \<open>
  The part of the document the sequencer touches. \<open>texts\<close> holds, for each element matched
  by \<^verbatim>\<open>.opening-section .text\<close> in document order, whether its class list contains
  \<^verbatim>\<open>active\<close>. \<open>openingSection\<close> and \<open>envelopeWrapper\<close> are \<open>None\<close> when
  \<^verbatim>\<open>querySelector\<close> returns null; otherwise they hold whether the opening section carries
  the class \<^verbatim>\<open>hidden\<close>, and whether the wrapper's inline style is \<^verbatim>\<open>display: block\<close>.
\<close>

record page =
  texts :: "bool list"
  openingSection :: "bool option"
  envelopeWrapper :: "bool option"

text \<open>The three closures that the sequencer passes to \<^verbatim>\<open>setTimeout\<close>.\<close>

datatype seq_callback = ShowNextText | HideOpening | ShowEnvelope

record sequencer =
  doc :: page
  currentTextIndex :: nat
  clock :: nat
  pending :: "seq_callback timer list"

definition textDisplayDuration :: nat where
  "textDisplayDuration = 2500"

definition textTransitionDuration :: nat where
  "textTransitionDuration = 800"

definition showNextText :: "sequencer \<Rightarrow> sequencer" where
  "showNextText s =
     (let ts = map (\<lambda>text. False) (texts (doc s));
          s1 = s\<lparr>doc := (doc s)\<lparr>texts := ts\<rparr>\<rparr>
      in if currentTextIndex s1 < length ts then
           let s2 = s1\<lparr>doc := (doc s1)\<lparr>texts := ts[currentTextIndex s1 := True]\<rparr>,
                      currentTextIndex := currentTextIndex s1 + 1\<rparr>
           in if currentTextIndex s2 < length ts
              then s2\<lparr>pending := setTimeout ShowNextText textDisplayDuration (clock s2) (pending s2)\<rparr>
              else s2\<lparr>pending := setTimeout HideOpening textDisplayDuration (clock s2) (pending s2)\<rparr>
         else s1)"

definition hideOpening :: "sequencer \<Rightarrow> sequencer" where
  "hideOpening s =
     (let s1 = (case openingSection (doc s) of
                  None \<Rightarrow> s
                | Some hidden \<Rightarrow> s\<lparr>doc := (doc s)\<lparr>openingSection := Some True\<rparr>\<rparr>)
      in s1\<lparr>pending := setTimeout ShowEnvelope textTransitionDuration (clock s1) (pending s1)\<rparr>)"

definition showEnvelope :: "sequencer \<Rightarrow> sequencer" where
  "showEnvelope s =
     (case envelopeWrapper (doc s) of
        None \<Rightarrow> s
      | Some block \<Rightarrow> s\<lparr>doc := (doc s)\<lparr>envelopeWrapper := Some True\<rparr>\<rparr>)"

fun call :: "seq_callback \<Rightarrow> sequencer \<Rightarrow> sequencer" where
  "call ShowNextText s = showNextText s"
| "call HideOpening s = hideOpening s"
| "call ShowEnvelope s = showEnvelope s"

text \<open>
  \<^verbatim>\<open>initTextFading\<close> either returns early (no text element: the page is changed at once
  and neither the cursor nor any timer is created), or creates the cursor and schedules
  the first \<^verbatim>\<open>showNextText\<close> 500 ms later. \<open>now\<close> is the time of the call.
\<close>

datatype init_result = EarlyReturn page | Animating sequencer

definition initTextFading :: "nat \<Rightarrow> page \<Rightarrow> init_result" where
  "initTextFading now d =
     (if length (texts d) = 0 then
        let d1 = (case envelopeWrapper d of None \<Rightarrow> d
                  | Some block \<Rightarrow> d\<lparr>envelopeWrapper := Some True\<rparr>);
            d2 = (case openingSection d1 of None \<Rightarrow> d1
                  | Some hidden \<Rightarrow> d1\<lparr>openingSection := Some True\<rparr>)
        in EarlyReturn d2
      else Animating \<lparr>doc = d, currentTextIndex = 0, clock = now,
                       pending = setTimeout ShowNextText 500 now []\<rparr>)"

text \<open>
  The event loop: the first pending timer fires, at its due time. \<open>run\<close> lists the state
  after each callback, until no timer is pending.
\<close>

definition fire :: "sequencer \<Rightarrow> sequencer option" where
  "fire s =
     (case pending s of
        [] \<Rightarrow> None
      | (t, cb) # rest \<Rightarrow> Some (call cb (s\<lparr>clock := t, pending := rest\<rparr>)))"

text \<open>
  The run ends: \<open>remaining\<close> bounds the number of callbacks still to come, where \<open>r\<close> is
  the number of text items behind the cursor, and every callback makes it smaller.
\<close>

fun weight :: "nat \<Rightarrow> seq_callback \<Rightarrow> nat" where
  "weight r ShowNextText = 2 * r + 3"
| "weight r HideOpening = 2"
| "weight r ShowEnvelope = 1"

definition remaining :: "sequencer \<Rightarrow> nat" where
  "remaining s =
     sum_list (map (\<lambda>x. weight (length (texts (doc s)) - currentTextIndex s) (snd x)) (pending s))"

lemma sum_weight_enqueue:
  "sum_list (map (\<lambda>x. weight r (snd x)) (enqueue y q)) =
   weight r (snd y) + sum_list (map (\<lambda>x. weight r (snd x)) q)"
  by (induction q) auto

lemma weight_mono: "r \<le> r' \<Longrightarrow> weight r cb \<le> weight r' cb"
  by (cases cb) auto

lemma sum_weight_mono:
  "r \<le> r' \<Longrightarrow> sum_list (map (\<lambda>x. weight r (snd x)) q) \<le> sum_list (map (\<lambda>x. weight r' (snd x)) q)"
  by (induction q) (auto intro: add_mono weight_mono)

lemma fire_remaining:
  assumes "fire s = Some s'"
  shows "remaining s' < remaining s"
proof -
  from assms obtain t cb rest where p: "pending s = (t, cb) # rest"
    and s': "s' = call cb (s\<lparr>clock := t, pending := rest\<rparr>)"
    by (auto simp: fire_def split: list.splits)
  let ?n = "length (texts (doc s))"
  let ?i = "currentTextIndex s"
  show ?thesis
  proof (cases cb)
    case ShowNextText
    show ?thesis
    proof (cases "?i < ?n")
      case True
      have "sum_list (map (\<lambda>x. weight (?n - Suc ?i) (snd x)) rest)
            \<le> sum_list (map (\<lambda>x. weight (?n - ?i) (snd x)) rest)"
        by (rule sum_weight_mono) simp
      with True show ?thesis
        using p s' ShowNextText
        by (auto simp: remaining_def showNextText_def Let_def setTimeout_def sum_weight_enqueue)
    next
      case False
      then show ?thesis
        using p s' ShowNextText
        by (auto simp: remaining_def showNextText_def Let_def)
    qed
  next
    case HideOpening
    then show ?thesis
      using p s'
      by (auto simp: remaining_def hideOpening_def Let_def setTimeout_def sum_weight_enqueue
               split: option.splits)
  next
    case ShowEnvelope
    then show ?thesis
      using p s'
      by (auto simp: remaining_def showEnvelope_def split: option.splits)
  qed
qed

function run :: "sequencer \<Rightarrow> sequencer list" where
  "run s = (case fire s of None \<Rightarrow> [] | Some s' \<Rightarrow> s' # run s')"
  by pat_completeness auto
termination
  by (relation "measure remaining") (auto simp: fire_remaining)

declare run.simps [simp del]

section \<open>Numbers\<close>

text \<open>
  A JavaScript Number is an IEEE 754 binary64 value. A finite one is kept as the rational
  number it stands for; the two zeros are one value (nothing on this page tells them apart:
  they compare equal, add alike and print alike).
\<close>

datatype number = NaN | NegInfinity | Finite rat | PosInfinity

text \<open>
  \<open>bit_length n\<close> is the number of binary digits of \<open>n\<close>, and \<open>binade a\<close> the exponent
  \<open>e\<close> with \<open>2\<^sup>e \<le> a < 2\<^sup>e\<^sup>+\<^sup>1\<close> of a positive \<open>a\<close> (see \<open>binade_bounds\<close> below).
\<close>

fun bit_length :: "nat \<Rightarrow> nat" where
  "bit_length n = (if n = 0 then 0 else Suc (bit_length (n div 2)))"

declare bit_length.simps [simp del]

definition binade :: "rat \<Rightarrow> int" where
  "binade a =
     (if 1 \<le> a then int (bit_length (nat \<lfloor>a\<rfloor>)) - 1
      else - int (bit_length (nat (\<lceil>1 / a\<rceil> - 1))))"

definition pow2 :: "int \<Rightarrow> rat" where
  "pow2 e = (if 0 \<le> e then 2 ^ nat e else 1 / 2 ^ nat (- e))"

text \<open>The nearest integer, the even one of two that are equally near.\<close>

definition roundTiesToEven :: "rat \<Rightarrow> int" where
  "roundTiesToEven y =
     (let f = \<lfloor>y\<rfloor>; d = y - of_int f
      in if d < 1 / 2 \<or> (d = 1 / 2 \<and> even f) then f else f + 1)"

text \<open>
  The Number value for a real number, as a numeric literal and every arithmetic operation
  take it: the nearest value with 53 significant binary digits, ties to the even one, where
  the digits end at \<open>2\<^sup>-\<^sup>1\<^sup>0\<^sup>7\<^sup>4\<close> at the latest (subnormal values), and a result of \<open>2\<^sup>1\<^sup>0\<^sup>2\<^sup>4\<close> or
  more is infinite.
\<close>

definition number_of :: "rat \<Rightarrow> number" where
  "number_of x =
     (if x = 0 then Finite 0
      else
        let a = \<bar>x\<bar>;
            e = max (binade a) (- 1022);
            q = pow2 (e - 52);
            r = of_int (roundTiesToEven (a / q)) * q
        in if 2 ^ 1024 \<le> r then (if 0 < x then PosInfinity else NegInfinity)
           else Finite (sgn x * r))"

text \<open>The operators \<^verbatim>\<open>+\<close>, unary and binary \<^verbatim>\<open>-\<close>, and \<^verbatim>\<open><=\<close> on Numbers.\<close>

fun plus_number :: "number \<Rightarrow> number \<Rightarrow> number" where
  "plus_number (Finite a) (Finite b) = number_of (a + b)"
| "plus_number NaN y = NaN"
| "plus_number x NaN = NaN"
| "plus_number PosInfinity NegInfinity = NaN"
| "plus_number NegInfinity PosInfinity = NaN"
| "plus_number PosInfinity y = PosInfinity"
| "plus_number x PosInfinity = PosInfinity"
| "plus_number NegInfinity y = NegInfinity"
| "plus_number x NegInfinity = NegInfinity"

fun negate :: "number \<Rightarrow> number" where
  "negate NaN = NaN"
| "negate NegInfinity = PosInfinity"
| "negate (Finite a) = Finite (- a)"
| "negate PosInfinity = NegInfinity"

definition minus_number :: "number \<Rightarrow> number \<Rightarrow> number" where
  "minus_number x y = plus_number x (negate y)"

fun less_eq_number :: "number \<Rightarrow> number \<Rightarrow> bool" where
  "less_eq_number (Finite a) (Finite b) \<longleftrightarrow> a \<le> b"
| "less_eq_number NaN y \<longleftrightarrow> False"
| "less_eq_number x NaN \<longleftrightarrow> False"
| "less_eq_number NegInfinity y \<longleftrightarrow> True"
| "less_eq_number x PosInfinity \<longleftrightarrow> True"
| "less_eq_number PosInfinity y \<longleftrightarrow> False"
| "less_eq_number x NegInfinity \<longleftrightarrow> False"

section \<open>The envelope click handler\<close>

datatype js_error = TypeError

text \<open>
  A class attribute is the list of its class names. jQuery's \<^verbatim>\<open>addClass\<close> appends a name
  that is not there yet, \<^verbatim>\<open>removeClass\<close> takes out every occurrence; both act on every
  element of the matched set and never fail, also on an empty set.
\<close>

type_synonym classList = "string list"

definition addClass :: "string \<Rightarrow> classList \<Rightarrow> classList" where
  "addClass c cs = (if c \<in> set cs then cs else cs @ [c])"

definition removeClass :: "string \<Rightarrow> classList \<Rightarrow> classList" where
  "removeClass c cs = filter (\<lambda>x. x \<noteq> c) cs"

text \<open>
  The three properties that the scroll listener reads, in pixels: Numbers, and the
  comparison \<^verbatim>\<open>scrollHeight - scrollTop <= clientHeight + 5\<close> rounds its difference and its
  sum as Numbers do.
\<close>

record metrics =
  scrollHeight :: number
  scrollTop :: number
  clientHeight :: number

definition isAtBottom :: "metrics \<Rightarrow> bool" where
  "isAtBottom m \<longleftrightarrow>
     less_eq_number (minus_number (scrollHeight m) (scrollTop m))
       (plus_number (clientHeight m) (number_of 5))"

text \<open>
  The card content element: how many scroll listeners have been added to it (every
  \<^verbatim>\<open>addEventListener\<close> call passes a new function, so none is dropped as a duplicate), and
  the times at which \<^verbatim>\<open>scrollTo({top: 0, behavior: 'smooth'})\<close> was called on it.
\<close>

record content =
  scrollListeners :: nat
  scrollToCalls :: "nat list"

datatype env_callback = ArmScroll | ScrollToTop

text \<open>
  The clicked \<^verbatim>\<open>.js-open-envelope\<close> control: the class lists of the elements that
  \<^verbatim>\<open>.envelope\<close> and \<^verbatim>\<open>.envelope__card\<close> match below it, for every element matched by
  \<^verbatim>\<open>.heart use\<close> whether \<^verbatim>\<open>fadeOut\<close> was called on it, and the first
  \<^verbatim>\<open>.envelope__card-content\<close> element below a card (\<open>None\<close> when indexing the matched
  set with 0 gives \<^verbatim>\<open>undefined\<close>). \<^verbatim>\<open>event.preventDefault()\<close> changes none of these.
\<close>

record control =
  envelope :: "classList list"
  envelope_card :: "classList list"
  heart_use :: "bool list"
  cardContentElement :: "content option"
  now :: nat
  timers :: "env_callback timer list"

definition open_envelope_click :: "control \<Rightarrow> js_error + control" where
  "open_envelope_click s =
     (let s1 = s\<lparr>envelope := map (\<lambda>cs. addClass ''open'' (removeClass ''tossing'' cs)) (envelope s)\<rparr>;
          s2 = s1\<lparr>envelope_card := map (addClass ''open'') (envelope_card s1)\<rparr>;
          s3 = s2\<lparr>heart_use := map (\<lambda>u. True) (heart_use s2)\<rparr>
      in case cardContentElement s3 of
           None \<Rightarrow> Inr s3
         | Some c \<Rightarrow> Inr (s3\<lparr>timers := setTimeout ArmScroll 1000 (now s3) (timers s3)\<rparr>))"

text \<open>One scroll listener, called with the values it reads from the element.\<close>

definition scroll_listener :: "metrics \<Rightarrow> control \<Rightarrow> control" where
  "scroll_listener m s =
     (if isAtBottom m
      then s\<lparr>timers := setTimeout ScrollToTop 1000 (now s) (timers s)\<rparr>
      else s)"

text \<open>
  The two timer callbacks of the handler. Both close over the content element found by the
  click that scheduled them, so they only ever run when it exists.
\<close>

fun exec :: "env_callback \<Rightarrow> control \<Rightarrow> control" where
  "exec ArmScroll s =
     (case cardContentElement s of
        None \<Rightarrow> s
      | Some c \<Rightarrow> s\<lparr>cardContentElement := Some (c\<lparr>scrollListeners := scrollListeners c + 1\<rparr>)\<rparr>)"
| "exec ScrollToTop s =
     (case cardContentElement s of
        None \<Rightarrow> s
      | Some c \<Rightarrow> s\<lparr>cardContentElement := Some (c\<lparr>scrollToCalls := scrollToCalls c @ [now s]\<rparr>)\<rparr>)"

text \<open>
  What happens to the control from outside: a click on it, or a scroll event on its card
  content, where the listeners read the given values. An event comes with its time. Before
  it is handled, the timers due by then fire, each at its due time; a timer due at the very
  time of an event fires before the event is handled.
\<close>

datatype input = Click | Scroll metrics

lemma exec_timers [simp]: "timers (exec cb s) = timers s"
  by (cases cb) (auto split: option.splits)

function fire_due :: "nat \<Rightarrow> control \<Rightarrow> control" where
  "fire_due t s =
     (case timers s of
        [] \<Rightarrow> s
      | (d, cb) # rest \<Rightarrow>
          if d \<le> t then fire_due t (exec cb (s\<lparr>now := d, timers := rest\<rparr>)) else s)"
  by pat_completeness auto
termination
  by (relation "measure (\<lambda>(t, s). length (timers s))") auto

declare fire_due.simps [simp del]

fun handle :: "input \<Rightarrow> control \<Rightarrow> control" where
  "handle Click s = (case open_envelope_click s of Inl e \<Rightarrow> s | Inr s' \<Rightarrow> s')"
| "handle (Scroll m) s =
     (case cardContentElement s of
        None \<Rightarrow> s
      | Some c \<Rightarrow> ((scroll_listener m) ^^ scrollListeners c) s)"

definition deliver :: "control \<Rightarrow> nat \<times> input \<Rightarrow> control" where
  "deliver s ev = handle (snd ev) ((fire_due (fst ev) s)\<lparr>now := fst ev\<rparr>)"

definition play :: "(nat \<times> input) list \<Rightarrow> control \<Rightarrow> control" where
  "play evs s = foldl deliver s evs"

section \<open>The background music trigger\<close>

text \<open>
  The element with id \<^verbatim>\<open>bgm\<close>, \<open>None\<close> when \<^verbatim>\<open>getElementById\<close> returns null; of the
  audio element only the number of \<^verbatim>\<open>play()\<close> calls made on it is kept.
\<close>

record audio =
  playCalls :: nat

definition document_click :: "audio option \<Rightarrow> js_error + audio option" where
  "document_click bgm =
     (case bgm of
        None \<Rightarrow> Inl TypeError
      | Some a \<Rightarrow> Inr (Some (a\<lparr>playCalls := playCalls a + 1\<rparr>)))"

text \<open>A series of clicks; an uncaught error of one handler call does not stop the next.\<close>

fun document_clicks :: "nat \<Rightarrow> audio option \<Rightarrow> audio option" where
  "document_clicks 0 bgm = bgm"
| "document_clicks (Suc n) bgm =
     (case document_click bgm of
        Inl e \<Rightarrow> document_clicks n bgm
      | Inr bgm' \<Rightarrow> document_clicks n bgm')"

section \<open>The letter animation of the card text\<close>

text \<open>
  A JavaScript string is the list of its UTF-16 code units. \<^verbatim>\<open>replace\<close>, \<^verbatim>\<open>trim\<close> and
  \<^verbatim>\<open>split\<close> work on code units; only the iteration \<^verbatim>\<open>[...line]\<close> groups them into code
  points.
\<close>

type_synonym jsstring = "16 word list"

definition codeunit :: "char \<Rightarrow> 16 word" where
  "codeunit c = of_char c"

definition str :: "string \<Rightarrow> jsstring" where
  "str s = map codeunit s"

text \<open>
  The characters that \<^verbatim>\<open>\s\<close> matches and that \<^verbatim>\<open>trim\<close> removes: white space and line
  terminators of ECMAScript.
\<close>

definition isWhiteSpace :: "16 word \<Rightarrow> bool" where
  "isWhiteSpace c \<longleftrightarrow>
     c \<in> {0x9, 0xA, 0xB, 0xC, 0xD, 0x20, 0xA0, 0x1680, 0x2028, 0x2029, 0x202F, 0x205F, 0x3000, 0xFEFF}
     \<or> (0x2000 \<le> c \<and> c \<le> 0x200A)"

definition trim :: "jsstring \<Rightarrow> jsstring" where
  "trim s = rev (dropWhile isWhiteSpace (rev (dropWhile isWhiteSpace s)))"

text \<open>
  A match of \<^verbatim>\<open>/<br\s*\/?>/gi\<close> at the start of \<open>s\<close>: the rest of \<open>s\<close> behind the match,
  \<open>None\<close> when there is no match. The greedy \<^verbatim>\<open>\s*\<close> and \<^verbatim>\<open>\/?\<close> never need to give
  characters back, since neither \<^verbatim>\<open>/\<close> nor \<^verbatim>\<open>>\<close> is white space.
\<close>

definition match_br :: "jsstring \<Rightarrow> jsstring option" where
  "match_br s =
     (case s of
        lt # b # r # rest \<Rightarrow>
          if lt = codeunit CHR ''<''
             \<and> (b = codeunit CHR ''b'' \<or> b = codeunit CHR ''B'')
             \<and> (r = codeunit CHR ''r'' \<or> r = codeunit CHR ''R'')
          then
            let rest1 = dropWhile isWhiteSpace rest;
                rest2 = (case rest1 of
                           [] \<Rightarrow> rest1
                         | x # xs \<Rightarrow> if x = codeunit CHR ''/'' then xs else rest1)
            in (case rest2 of
                  [] \<Rightarrow> None
                | x # xs \<Rightarrow> if x = codeunit CHR ''>'' then Some xs else None)
          else None
      | _ \<Rightarrow> None)"

lemma match_br_shorter:
  assumes "match_br s = Some rest"
  shows "length rest < length s"
proof -
  from assms obtain lt b r rest0 where s: "s = lt # b # r # rest0"
    by (auto simp: match_br_def split: list.splits)
  define rest1 where "rest1 = dropWhile isWhiteSpace rest0"
  define rest2 where "rest2 = (case rest1 of [] \<Rightarrow> rest1
                               | x # xs \<Rightarrow> if x = codeunit CHR ''/'' then xs else rest1)"
  have 1: "length rest1 \<le> length rest0"
    unfolding rest1_def by (rule length_dropWhile_le)
  have 2: "length rest2 \<le> length rest1"
    unfolding rest2_def by (cases rest1) auto
  have "match_br s = None \<or>
        match_br s = (case rest2 of [] \<Rightarrow> None
                      | x # xs \<Rightarrow> if x = codeunit CHR ''>'' then Some xs else None)"
    unfolding s match_br_def rest2_def rest1_def by (simp add: Let_def)
  with assms have "length rest < length rest2"
    by (cases rest2) (auto split: if_splits)
  with 1 2 show ?thesis
    by (simp add: s)
qed

text \<open>
  \<^verbatim>\<open>html.split(/<br\s*\/?>/gi)\<close>: \<open>piece\<close> collects the characters since the last match.
  The result has at least one element, the empty string for the empty input.
\<close>

function split :: "jsstring \<Rightarrow> jsstring \<Rightarrow> jsstring list" where
  "split piece [] = [piece]"
| "split piece (c # cs) =
     (case match_br (c # cs) of
        Some rest \<Rightarrow> piece # split [] rest
      | None \<Rightarrow> split (piece @ [c]) cs)"
  by pat_completeness auto
termination
  by (relation "measure (\<lambda>(piece, s). length s)") (auto dest: match_br_shorter)

text \<open>
  \<^verbatim>\<open>[...line]\<close>: the string iterator yields one string per code point, a leading surrogate
  together with the trailing surrogate that follows it, and every other code unit alone.
\<close>

definition isLeadingSurrogate :: "16 word \<Rightarrow> bool" where
  "isLeadingSurrogate c \<longleftrightarrow> 0xD800 \<le> c \<and> c \<le> 0xDBFF"

definition isTrailingSurrogate :: "16 word \<Rightarrow> bool" where
  "isTrailingSurrogate c \<longleftrightarrow> 0xDC00 \<le> c \<and> c \<le> 0xDFFF"

fun spread :: "jsstring \<Rightarrow> jsstring list" where
  "spread [] = []"
| "spread [c] = [[c]]"
| "spread (c # d # cs) =
     (if isLeadingSurrogate c \<and> isTrailingSurrogate d then [c, d] # spread cs
      else [c] # spread (d # cs))"

text \<open>
  \<^verbatim>\<open>finalHTML\<close> is kept as the list of the pieces appended to it: a \<^verbatim>\<open>span\<close> element with
  its delay and its character, or \<^verbatim>\<open><br>\<close>. \<open>render\<close> writes the pieces out as the source
  does; the decimal form that the template literal gives the delay is its parameter
  \<open>numstr\<close>. \<open>delay_increment\<close> is the literal \<^verbatim>\<open>0.05\<close>.
\<close>

datatype piece = Span number jsstring | Br

definition delay_increment :: number where
  "delay_increment = number_of (5 / 100)"

fun chars_forEach :: "jsstring list \<Rightarrow> piece list \<times> number \<Rightarrow> piece list \<times> number" where
  "chars_forEach [] st = st"
| "chars_forEach (char # cs) (finalHTML, delay) =
     (let safeChar = (if char = str '' '' then str ''&nbsp;'' else char)
      in chars_forEach cs (finalHTML @ [Span delay safeChar], plus_number delay delay_increment))"

fun lines_forEach :: "nat \<Rightarrow> jsstring list \<Rightarrow> nat \<Rightarrow> piece list \<times> number \<Rightarrow> piece list \<times> number" where
  "lines_forEach n [] i st = st"
| "lines_forEach n (line # ls) i st =
     (case chars_forEach (spread line) st of
        (finalHTML, delay) \<Rightarrow>
          lines_forEach n ls (i + 1)
            (if int i < int n - 1 then finalHTML @ [Br] else finalHTML, delay))"

text \<open>The body of \<^verbatim>\<open>textElements.forEach\<close> for one paragraph.\<close>

definition letters :: "jsstring \<Rightarrow> piece list" where
  "letters innerHTML =
     (let html = trim (filter (\<lambda>c. c \<noteq> codeunit CHR 0x0D) innerHTML);
          lines = split [] html
      in fst (lines_forEach (length lines) lines 0 ([], Finite 0)))"

fun render_piece :: "(number \<Rightarrow> jsstring) \<Rightarrow> piece \<Rightarrow> jsstring" where
  "render_piece numstr (Span delay safeChar) =
     str ''<span style=\"animation-delay:'' @ numstr delay @ str ''s\">'' @ safeChar @ str ''</span>''"
| "render_piece numstr Br = str ''<br>''"

definition render :: "(number \<Rightarrow> jsstring) \<Rightarrow> piece list \<Rightarrow> jsstring" where
  "render numstr ps = concat (map (render_piece numstr) ps)"

definition textElements_forEach :: "(number \<Rightarrow> jsstring) \<Rightarrow> jsstring list \<Rightarrow> js_error + jsstring list" where
  "textElements_forEach numstr innerHTMLs =
     Inr (map (\<lambda>innerHTML. render numstr (letters innerHTML)) innerHTMLs)"

section \<open>Notions used in the properties\<close>

subsection \<open>Sequencer\<close>

text \<open>
  What an observer of the page sees: the page after each change, with the time of the
  change. An early return changes the page at the time of the call.
\<close>

definition timeline :: "nat \<Rightarrow> page \<Rightarrow> (nat \<times> page) list" where
  "timeline start d =
     (case initTextFading start d of
        EarlyReturn d' \<Rightarrow> [(start, d')]
      | Animating s \<Rightarrow> map (\<lambda>s'. (clock s', doc s')) (run s))"

text \<open>
  The class state of \<open>n\<close> text items in which item \<open>j\<close> alone is active.
\<close>

definition only :: "nat \<Rightarrow> nat \<Rightarrow> bool list" where
  "only n j = (replicate n False)[j := True]"

text \<open>
  The states that the sequencer goes through: after \<^verbatim>\<open>showNextText\<close> has shown item
  \<open>j\<close> at time \<open>t\<close>, after the opening section was hidden, and after the envelope
  wrapper was shown.
\<close>

definition showing :: "page \<Rightarrow> nat \<Rightarrow> nat \<Rightarrow> sequencer" where
  "showing d t j =
     \<lparr>doc = d\<lparr>texts := only (length (texts d)) j\<rparr>, currentTextIndex = Suc j, clock = t,
      pending = [(t + 2500, if Suc j < length (texts d) then ShowNextText else HideOpening)]\<rparr>"

definition hiding :: "page \<Rightarrow> nat \<Rightarrow> sequencer" where
  "hiding d t =
     \<lparr>doc = d\<lparr>texts := only (length (texts d)) (length (texts d) - 1),
               openingSection := map_option (\<lambda>hidden. True) (openingSection d)\<rparr>,
      currentTextIndex = length (texts d), clock = t, pending = [(t + 800, ShowEnvelope)]\<rparr>"

definition revealed :: "page \<Rightarrow> nat \<Rightarrow> sequencer" where
  "revealed d t =
     \<lparr>doc = d\<lparr>texts := only (length (texts d)) (length (texts d) - 1),
               openingSection := map_option (\<lambda>hidden. True) (openingSection d),
               envelopeWrapper := map_option (\<lambda>block. True) (envelopeWrapper d)\<rparr>,
      currentTextIndex = length (texts d), clock = t, pending = []\<rparr>"

subsection \<open>Envelope\<close>

text \<open>
  The \<^verbatim>\<open>scrollTo\<close> calls made so far and the scroll listeners attached so far; a control
  is \<open>loaded\<close> when nothing has happened to it yet.
\<close>

definition scrollTo_times :: "control \<Rightarrow> nat list" where
  "scrollTo_times s = (case cardContentElement s of None \<Rightarrow> [] | Some c \<Rightarrow> scrollToCalls c)"

definition listeners :: "control \<Rightarrow> nat" where
  "listeners s = (case cardContentElement s of None \<Rightarrow> 0 | Some c \<Rightarrow> scrollListeners c)"

definition loaded :: "control \<Rightarrow> bool" where
  "loaded s \<longleftrightarrow> timers s = [] \<and> listeners s = 0 \<and> scrollTo_times s = []"

text \<open>
  In a list of timed inputs: \<open>arm_due\<close>, a click came exactly 1000 before the given time;
  \<open>armed_at\<close>, a click came at least 1000 before it; \<open>triggered_by\<close>, a scroll event whose
  values satisfied \<^verbatim>\<open>scrollHeight - scrollTop <= clientHeight + 5\<close> came exactly 1000 before
  it, itself at least 1000 after a click.
\<close>

definition arm_due :: "(nat \<times> input) list \<Rightarrow> nat \<Rightarrow> bool" where
  "arm_due evs d \<longleftrightarrow> (\<exists>ev \<in> set evs. snd ev = Click \<and> d = fst ev + 1000)"

definition armed_at :: "(nat \<times> input) list \<Rightarrow> nat \<Rightarrow> bool" where
  "armed_at evs t \<longleftrightarrow> (\<exists>ev \<in> set evs. snd ev = Click \<and> fst ev + 1000 \<le> t)"

definition triggered_by :: "(nat \<times> input) list \<Rightarrow> nat \<Rightarrow> bool" where
  "triggered_by evs T \<longleftrightarrow>
     (\<exists>ev \<in> set evs.
        case snd ev of
          Click \<Rightarrow> False
        | Scroll m \<Rightarrow>
            less_eq_number (minus_number (scrollHeight m) (scrollTop m))
              (plus_number (clientHeight m) (Finite 5)) \<and>
            armed_at evs (fst ev) \<and> T = fst ev + 1000)"

text \<open>
  Two invariants of the control while inputs are played. \<open>inv\<close>: every pending timer,
  every attached listener and every \<^verbatim>\<open>scrollTo\<close> call is accounted for by the inputs.
  \<open>inv_live\<close>: every click and every triggering scroll event of the inputs is accounted for
  by a pending timer, a listener or a \<^verbatim>\<open>scrollTo\<close> call.
\<close>

definition inv :: "(nat \<times> input) list \<Rightarrow> control \<Rightarrow> bool" where
  "inv evs s \<longleftrightarrow>
     (\<forall>x \<in> set (timers s).
        case snd x of ArmScroll \<Rightarrow> arm_due evs (fst x) | ScrollToTop \<Rightarrow> triggered_by evs (fst x)) \<and>
     (0 < listeners s \<longrightarrow> (\<forall>t. (\<forall>ev \<in> set evs. fst ev \<le> t) \<longrightarrow> armed_at evs t)) \<and>
     (\<forall>T \<in> set (scrollTo_times s). triggered_by evs T)"

definition inv_live :: "(nat \<times> input) list \<Rightarrow> control \<Rightarrow> bool" where
  "inv_live evs s \<longleftrightarrow>
     cardContentElement s \<noteq> None \<and>
     sorted (map fst (timers s)) \<and>
     (\<forall>ev \<in> set evs. snd ev = Click \<longrightarrow>
        (fst ev + 1000, ArmScroll) \<in> set (timers s) \<or> 0 < listeners s) \<and>
     (\<forall>T. triggered_by evs T \<longrightarrow>
        (T, ScrollToTop) \<in> set (timers s) \<or> T \<in> set (scrollTo_times s))"

text \<open>
  Example inputs: the values read near the bottom of the card (\<^verbatim>\<open>scrollTop\<close> is
  94.99999999999999) and further up, and three controls.
\<close>

definition bottom :: metrics where
  "bottom =
     \<lparr>scrollHeight = number_of 400, scrollTop = number_of (9499999999999999 / 10 ^ 14),
      clientHeight = number_of 300\<rparr>"

definition middle :: metrics where
  "middle = \<lparr>scrollHeight = number_of 400, scrollTop = number_of 20, clientHeight = number_of 300\<rparr>"

definition closed_card :: control where
  "closed_card =
     \<lparr>envelope = [[''envelope'', ''tossing'']], envelope_card = [[''envelope__card'']],
      heart_use = [False],
      cardContentElement = Some \<lparr>scrollListeners = 0, scrollToCalls = []\<rparr>,
      now = 0, timers = []\<rparr>"

definition opened_card :: control where
  "opened_card =
     \<lparr>envelope = [[''envelope'', ''open'']], envelope_card = [[''envelope__card'', ''open'']],
      heart_use = [True],
      cardContentElement = Some \<lparr>scrollListeners = 0, scrollToCalls = []\<rparr>,
      now = 0, timers = [(1000, ArmScroll)]\<rparr>"

definition no_content_card :: control where
  "no_content_card =
     \<lparr>envelope = [[''envelope'', ''tossing'']], envelope_card = [[''envelope__card'']],
      heart_use = [False], cardContentElement = None, now = 0, timers = []\<rparr>"

subsection \<open>Letter animation\<close>

text \<open>
  The delay of the character with \<open>k\<close> characters before it: 0.05 added \<open>k\<close> times to 0,
  every sum rounded.
\<close>

fun delay_at :: "nat \<Rightarrow> number" where
  "delay_at 0 = Finite 0"
| "delay_at (Suc k) = plus_number (delay_at k) delay_increment"

text \<open>
  The pieces of a line whose first character has number \<open>k\<close>, and of a list of lines,
  where character number \<open>j\<close> gets the delay \<open>dl j\<close>, the numbering runs on from one line to
  the next and \<^verbatim>\<open><br>\<close> stands between two lines.
\<close>

definition wrap :: "(nat \<Rightarrow> number) \<Rightarrow> nat \<Rightarrow> jsstring list \<Rightarrow> piece list" where
  "wrap dl k chars =
     map (\<lambda>(j, char). Span (dl j) (if char = str '' '' then str ''&nbsp;'' else char))
       (enumerate k chars)"

fun wrap_lines :: "(nat \<Rightarrow> number) \<Rightarrow> nat \<Rightarrow> jsstring list \<Rightarrow> piece list" where
  "wrap_lines dl k [] = []"
| "wrap_lines dl k [line] = wrap dl k (spread line)"
| "wrap_lines dl k (line # ls) =
     wrap dl k (spread line) @ [Br] @ wrap_lines dl (k + length (spread line)) ls"

text \<open>
  The transformation in the words of the specification: carriage returns are stripped, the
  text is split at the line breaks, every character is wrapped with the delay 0.05 times
  its number, and the lines are joined again. It does not trim.
\<close>

definition spec_delay :: "nat \<Rightarrow> number" where
  "spec_delay k = number_of (of_nat k * (5 / 100))"

definition spec_letters :: "jsstring \<Rightarrow> piece list" where
  "spec_letters innerHTML =
     wrap_lines spec_delay 0 (split [] (filter (\<lambda>c. c \<noteq> codeunit CHR 0x0D) innerHTML))"

text \<open>
  The delays of the \<^verbatim>\<open>span\<close> elements, in the order of the pieces.
\<close>

definition delays :: "piece list \<Rightarrow> number list" where
  "delays ps = concat (map (\<lambda>p. case p of Span delay safeChar \<Rightarrow> [delay] | Br \<Rightarrow> []) ps)"

section \<open>Properties of the numbers\<close>

lemma bit_length_0 [simp]: "bit_length 0 = 0"
  by (simp add: bit_length.simps)

lemma bit_length_pos: "0 < n \<Longrightarrow> bit_length n = Suc (bit_length (n div 2))"
  by (subst bit_length.simps) simp

lemma bit_length_bounds:
  "0 < n \<Longrightarrow> 2 ^ (bit_length n - 1) \<le> n \<and> n < 2 ^ bit_length n"
proof (induction n rule: bit_length.induct)
  case (1 n)
  show ?case
  proof (cases "n div 2 = 0")
    case True
    with "1.prems" have "n = 1"
      by (simp add: div_eq_0_iff)  
    then show ?thesis
      by (simp add: bit_length_pos)
  next
    case False
    then have p: "0 < n div 2"
      by simp
    from "1.IH" [OF _ p] "1.prems"
    have ih: "2 ^ (bit_length (n div 2) - 1) \<le> n div 2" "n div 2 < 2 ^ bit_length (n div 2)"
      by auto
    have b: "bit_length n = Suc (bit_length (n div 2))"
      using "1.prems" by (rule bit_length_pos)
    have pos: "0 < bit_length (n div 2)"
      using p by (simp add: bit_length_pos)
    have "2 ^ (bit_length n - 1) = 2 * 2 ^ (bit_length (n div 2) - 1)"
      using pos b by (cases "bit_length (n div 2)") auto
    also have "\<dots> \<le> 2 * (n div 2)"
      using ih(1) by simp
    also have "\<dots> \<le> n"
      by simp
    finally have lo: "2 ^ (bit_length n - 1) \<le> n" .
    have "n < 2 * (n div 2) + 2"
      by presburger
    also have "\<dots> \<le> 2 * 2 ^ bit_length (n div 2)"
      using ih(2) by simp
    finally have "n < 2 ^ bit_length n"
      by (simp add: b)
    with lo show ?thesis ..
  qed
qed

lemma binade_bounds:
  assumes "0 < a"
  shows "pow2 (binade a) \<le> a \<and> a < pow2 (binade a + 1)"
proof (cases "1 \<le> a")
  case True
  define n where "n = nat \<lfloor>a\<rfloor>"
  have fl: "1 \<le> \<lfloor>a\<rfloor>"
    using True by (simp add: le_floor_iff)
  then have on: "(of_nat n :: rat) = of_int \<lfloor>a\<rfloor>"
    unfolding n_def by simp
  have n: "0 < n"
    unfolding n_def using fl by simp
  have n_le: "of_nat n \<le> a"
    unfolding on by (rule of_int_floor_le)
  have n_gt: "a < of_nat n + 1"
    unfolding on using floor_correct [of a] by simp
  from bit_length_bounds [OF n]
  have b: "2 ^ (bit_length n - 1) \<le> n" "n < 2 ^ bit_length n"
    by auto
  have pos: "0 < bit_length n"
    using n by (simp add: bit_length_pos)
  have e: "binade a = int (bit_length n) - 1"
    using True by (simp add: binade_def n_def)
  have p1: "pow2 (binade a) = 2 ^ (bit_length n - 1)"
    using pos by (simp add: e pow2_def nat_diff_distrib')
  have "(of_nat (2 ^ (bit_length n - 1)) :: rat) \<le> of_nat n"
    using b(1) by (simp only: of_nat_le_iff)
  then have "(2::rat) ^ (bit_length n - 1) \<le> of_nat n"
    by simp
  then have lo: "pow2 (binade a) \<le> a"
    unfolding p1 using n_le by (rule order_trans)
  have "Suc n \<le> 2 ^ bit_length n"
    using b(2) by simp
  then have "(of_nat (Suc n) :: rat) \<le> of_nat (2 ^ bit_length n)"
    by (simp only: of_nat_le_iff)
  then have "(of_nat n :: rat) + 1 \<le> 2 ^ bit_length n"
    by simp
  with n_gt have "a < 2 ^ bit_length n"
    by (rule less_le_trans)
  moreover have "pow2 (binade a + 1) = 2 ^ bit_length n"
    by (simp add: e pow2_def)
  ultimately show ?thesis
    using lo by simp
next
  case False
  define m where "m = \<lceil>1 / a\<rceil>"
  define k where "k = bit_length (nat (m - 1))"
  have a1: "1 < 1 / a"
    using False assms by simp
  have m_ge: "1 / a \<le> of_int m"
    unfolding m_def by (rule le_of_int_ceiling)
  have m_lt: "of_int m - 1 < 1 / a"
    unfolding m_def by (rule ceiling_correct [THEN conjunct1])
  have m2: "2 \<le> m"
    unfolding m_def using a1 by (simp add: le_ceiling_iff)
  have p: "0 < nat (m - 1)"
    using m2 by simp
  from bit_length_bounds [OF p]
  have b: "2 ^ (k - 1) \<le> nat (m - 1)" "nat (m - 1) < 2 ^ k"
    unfolding k_def by auto
  have pos: "0 < k"
    unfolding k_def using p by (simp add: bit_length_pos)
  have e: "binade a = - int k"
    using False by (simp add: binade_def k_def m_def)
  have "int (nat (m - 1)) < int (2 ^ k)"
    using b(2) by (simp only: of_nat_less_iff)
  then have "m \<le> 2 ^ k"
    using m2 by simp
  then have "(of_int m :: rat) \<le> of_int (2 ^ k)"
    by (simp only: of_int_le_iff)
  then have "(of_int m :: rat) \<le> 2 ^ k"
    by simp
  with m_ge have "1 / a \<le> 2 ^ k"
    by (rule order_trans)
  then have "1 / 2 ^ k \<le> a"
    using assms by (simp add: field_simps)
  then have lo: "pow2 (binade a) \<le> a"
    using pos by (simp add: e pow2_def)
  have "int (2 ^ (k - 1)) \<le> int (nat (m - 1))"
    using b(1) by (simp only: of_nat_le_iff)
  then have "2 ^ (k - 1) \<le> m - 1"
    using m2 by simp
  then have "(of_int (2 ^ (k - 1)) :: rat) \<le> of_int (m - 1)"
    by (simp only: of_int_le_iff)
  then have "(2::rat) ^ (k - 1) \<le> of_int m - 1"
    by simp
  then have "2 ^ (k - 1) < 1 / a"
    using m_lt by (rule le_less_trans)
  then have "a < 1 / 2 ^ (k - 1)"
    using assms by (simp add: field_simps)
  moreover have "pow2 (binade a + 1) = 1 / 2 ^ (k - 1)"
    using pos by (cases k) (auto simp: e pow2_def)
  ultimately show ?thesis
    using lo by simp
qed

lemma roundTiesToEven_nearest: "\<bar>of_int (roundTiesToEven y) - y\<bar> \<le> 1 / 2"
proof -
  define d where "d = y - of_int \<lfloor>y\<rfloor>"
  have d: "0 \<le> d" "d < 1"
    unfolding d_def by linarith+
  have y: "y = of_int \<lfloor>y\<rfloor> + d"
    unfolding d_def by simp
  have "roundTiesToEven y = \<lfloor>y\<rfloor> \<and> d \<le> 1 / 2 \<or> roundTiesToEven y = \<lfloor>y\<rfloor> + 1 \<and> 1 / 2 \<le> d"
    unfolding roundTiesToEven_def Let_def d_def [symmetric] by auto
  then show ?thesis
  proof
    assume "roundTiesToEven y = \<lfloor>y\<rfloor> \<and> d \<le> 1 / 2"
    then show ?thesis
      using d by (subst (2) y) simp
  next
    assume "roundTiesToEven y = \<lfloor>y\<rfloor> + 1 \<and> 1 / 2 \<le> d"
    then show ?thesis
      using d by (subst (2) y) simp
  qed
qed

text \<open>Rules that evaluate the definitions on numerals.\<close>

lemma bit_length_1 [simp]: "bit_length (Suc 0) = Suc 0"
  by (simp add: bit_length_pos)

lemma bit_length_numeral [simp]: "bit_length (numeral k) = Suc (bit_length (numeral k div 2))"
  by (rule bit_length_pos) simp

lemma floor_numeral_divide [simp]: "\<lfloor>numeral a / numeral b :: rat\<rfloor> = numeral a div numeral b"
  using floor_divide_of_int_eq [of "numeral a" "numeral b", where ?'a = rat] by simp

lemma ceiling_numeral_divide [simp]:
  "\<lceil>numeral a / numeral b :: rat\<rceil> = - ((- numeral a) div numeral b)"
  using floor_divide_of_int_eq [of "- numeral a" "numeral b", where ?'a = rat]
  by (simp add: ceiling_def)

lemma floor_one_divide [simp]: "\<lfloor>1 / numeral b :: rat\<rfloor> = 1 div numeral b"
  using floor_divide_of_int_eq [of 1 "numeral b", where ?'a = rat] by simp

lemma ceiling_one_divide [simp]: "\<lceil>1 / numeral b :: rat\<rceil> = - ((- 1) div numeral b)"
  using floor_divide_of_int_eq [of "- 1" "numeral b", where ?'a = rat]
  by (simp add: ceiling_def)

lemmas num_eval = number_of_def binade_def pow2_def roundTiesToEven_def Let_def

text \<open>
  Some values: 0.1, 0.1 + 0.2 (which is 0.30000000000000004, not the Number for 0.3), two
  ties and a negative value; then a value halfway between the largest finite Number and
  \<open>2\<^sup>1\<^sup>0\<^sup>2\<^sup>4\<close>, and one halfway between 0 and the smallest positive Number.
\<close>

lemma number_of_examples:
  "number_of (1 / 10) = Finite (3602879701896397 / 2 ^ 55)"
  "plus_number (number_of (1 / 10)) (number_of (2 / 10)) = Finite (1351079888211149 / 2 ^ 52)"
  "number_of (3 / 10) = Finite (5404319552844595 / 2 ^ 54)"
  "number_of (2 ^ 53 + 1) = Finite (2 ^ 53)"
  "number_of (2 ^ 53 + 3) = Finite (2 ^ 53 + 4)"
  "number_of (- (5 / 100)) = Finite (- (3602879701896397 / 2 ^ 56))"
  by (simp_all add: num_eval cong: let_weak_cong)

lemma number_of_overflow: "number_of (2 ^ 1024 - 2 ^ 970) = PosInfinity"
  by (simp add: num_eval cong: let_weak_cong)

lemma number_of_underflow: "number_of (1 / 2 ^ 1075) = Finite 0"
  by (simp add: num_eval cong: let_weak_cong)

section \<open>Properties of the sequencer\<close>

text \<open>
  C4: when no text element is matched, \<^verbatim>\<open>initTextFading\<close> returns at once: it creates no
  cursor and schedules no timer, and the page it leaves has the envelope wrapper shown and
  the opening section hidden (each where the element exists). The only change of the page
  is the one at the time of the call.
\<close>

theorem initTextFading_empty:
  assumes "length (texts d) = 0"
  shows "initTextFading t d =
           EarlyReturn (d\<lparr>envelopeWrapper := map_option (\<lambda>block. True) (envelopeWrapper d),
                          openingSection := map_option (\<lambda>hidden. True) (openingSection d)\<rparr>) \<and>
         timeline t d =
           [(t, d\<lparr>envelopeWrapper := map_option (\<lambda>block. True) (envelopeWrapper d),
                  openingSection := map_option (\<lambda>hidden. True) (openingSection d)\<rparr>)]"
  using assms
  by (cases d) (auto simp: timeline_def initTextFading_def Let_def split: option.splits)

theorem initTextFading_empty_witness:
  "length (texts \<lparr>texts = [], openingSection = Some False, envelopeWrapper = Some False\<rparr>) = 0 \<and>
   initTextFading 0 \<lparr>texts = [], openingSection = Some False, envelopeWrapper = Some False\<rparr> =
     EarlyReturn \<lparr>texts = [], openingSection = Some True, envelopeWrapper = Some True\<rparr>"
  using initTextFading_empty [of "\<lparr>texts = [], openingSection = Some False, envelopeWrapper = Some False\<rparr>" 0]
  by simp

subsection \<open>The run of the sequencer in closed form\<close>

lemma map_const_False: "map (\<lambda>text. False) xs = replicate (length xs) False"
  by (induction xs) auto

lemma fire_show:
  assumes "i < length (texts d)"
  shows "fire \<lparr>doc = d, currentTextIndex = i, clock = c, pending = [(t, ShowNextText)]\<rparr> =
         Some (showing d t i)"
  using assms
  by (simp add: fire_def showNextText_def Let_def setTimeout_def showing_def only_def
      textDisplayDuration_def map_const_False)

lemma showing_texts [simp]: "length (texts (doc (showing d t j))) = length (texts d)"
  by (simp add: showing_def only_def)

lemma run_hide:
  assumes "n = length (texts d)"
  shows "run \<lparr>doc = d\<lparr>texts := only n (n - 1)\<rparr>, currentTextIndex = n, clock = c,
               pending = [(t, HideOpening)]\<rparr> =
         [hiding d t, revealed d (t + 800)]"
proof -
  let ?s = "\<lparr>doc = d\<lparr>texts := only n (n - 1)\<rparr>, currentTextIndex = n, clock = c,
             pending = [(t, HideOpening)]\<rparr>"
  have 1: "fire ?s = Some (hiding d t)"
    using assms
    by (cases "openingSection d")
       (simp_all add: fire_def hideOpening_def Let_def setTimeout_def hiding_def
          textTransitionDuration_def)
  have 2: "fire (hiding d t) = Some (revealed d (t + 800))"
    by (cases "envelopeWrapper d")
       (simp_all add: fire_def showEnvelope_def hiding_def revealed_def)
  have 3: "fire (revealed d (t + 800)) = None"
    by (simp add: fire_def revealed_def)
  have "run (revealed d (t + 800)) = []"
    by (subst run.simps) (simp only: 3 option.case)
  then have "run (hiding d t) = [revealed d (t + 800)]"
    by (subst run.simps) (simp only: 2 option.case)
  then show ?thesis
    by (subst run.simps) (simp only: 1 option.case)
qed

lemma run_show:
  assumes "i < n" "n = length (texts d)"
  shows "run \<lparr>doc = d, currentTextIndex = i, clock = c, pending = [(t, ShowNextText)]\<rparr> =
         map (\<lambda>j. showing d (t + 2500 * (j - i)) j) [i..<n] @
         [hiding d (t + 2500 * (n - i)), revealed d (t + 2500 * (n - i) + 800)]"
  using assms
proof (induction "n - i" arbitrary: i c t d)
  case 0
  then show ?case by simp
next
  case (Suc k)
  let ?s = "\<lparr>doc = d, currentTextIndex = i, clock = c, pending = [(t, ShowNextText)]\<rparr>"
  let ?d' = "d\<lparr>texts := only n i\<rparr>"
  have len: "length (texts ?d') = n"
    by (simp add: only_def)
  have f: "fire ?s = Some (showing d t i)"
    using Suc.prems by (simp add: fire_show)
  have r: "run ?s = showing d t i # run (showing d t i)"
    by (simp add: run.simps [of ?s] f)
  show ?case
  proof (cases "Suc i < n")
    case True
    have sh: "showing d t i =
              \<lparr>doc = ?d', currentTextIndex = Suc i, clock = t, pending = [(t + 2500, ShowNextText)]\<rparr>"
      using True Suc.prems by (simp add: showing_def)
    have k: "k = n - Suc i"
      using Suc.hyps(2) by simp
    have ih: "run (showing d t i) =
              map (\<lambda>j. showing ?d' (t + 2500 + 2500 * (j - Suc i)) j) [Suc i..<n] @
              [hiding ?d' (t + 2500 + 2500 * (n - Suc i)),
               revealed ?d' (t + 2500 + 2500 * (n - Suc i) + 800)]"
      unfolding sh using Suc.hyps(1) [OF k True] len by simp
    have a: "showing ?d' u j = showing d u j" for u j
      using Suc.prems by (simp add: showing_def only_def)
    have b: "hiding ?d' u = hiding d u" for u
      using Suc.prems by (simp add: hiding_def only_def)
    have c: "revealed ?d' u = revealed d u" for u
      using Suc.prems by (simp add: revealed_def only_def)
    have t1: "t + 2500 + 2500 * (n - Suc i) = t + 2500 * (n - i)"
      using True by simp
    have m: "map (\<lambda>j. showing d (t + 2500 + 2500 * (j - Suc i)) j) [Suc i..<n] =
             map (\<lambda>j. showing d (t + 2500 * (j - i)) j) [Suc i..<n]"
    proof (rule map_cong [OF refl])
      fix j assume "j \<in> set [Suc i..<n]"
      then have "j - i = Suc (j - Suc i)"
        by auto
      then have "t + 2500 + 2500 * (j - Suc i) = t + 2500 * (j - i)"
        by simp
      then show "showing d (t + 2500 + 2500 * (j - Suc i)) j = showing d (t + 2500 * (j - i)) j"
        by (simp only:)
    qed
    have u: "[i..<n] = i # [Suc i..<n]"
      using Suc.prems by (simp add: upt_conv_Cons)
    show ?thesis
      by (simp only: r ih a b c t1 m u list.map append_Cons diff_self_eq_0 mult_0_right add_0_right)
  next
    case False
    then have n: "n = Suc i"
      using Suc.prems by simp
    have sh: "showing d t i =
              \<lparr>doc = d\<lparr>texts := only n (n - 1)\<rparr>, currentTextIndex = n, clock = t,
               pending = [(t + 2500, HideOpening)]\<rparr>"
      using n Suc.prems by (simp add: showing_def)
    have "run (showing d t i) = [hiding d (t + 2500), revealed d (t + 2500 + 800)]"
      unfolding sh by (rule run_hide [OF Suc.prems(2)])
    then show ?thesis
      using r n by simp
  qed
qed

lemma run_initTextFading:
  assumes "texts d \<noteq> []"
  shows "initTextFading start d =
           Animating \<lparr>doc = d, currentTextIndex = 0, clock = start, pending = [(start + 500, ShowNextText)]\<rparr>"
    and "run \<lparr>doc = d, currentTextIndex = 0, clock = start, pending = [(start + 500, ShowNextText)]\<rparr> =
           map (\<lambda>j. showing d (start + 500 + 2500 * j) j) [0..<length (texts d)] @
           [hiding d (start + 500 + 2500 * length (texts d)),
            revealed d (start + 500 + 2500 * length (texts d) + 800)]"
proof -
  show "initTextFading start d =
           Animating \<lparr>doc = d, currentTextIndex = 0, clock = start, pending = [(start + 500, ShowNextText)]\<rparr>"
    using assms by (simp add: initTextFading_def setTimeout_def)
  have "0 < length (texts d)"
    using assms by simp
  from run_show [OF this refl, of start "start + 500"]
  show "run \<lparr>doc = d, currentTextIndex = 0, clock = start, pending = [(start + 500, ShowNextText)]\<rparr> =
           map (\<lambda>j. showing d (start + 500 + 2500 * j) j) [0..<length (texts d)] @
           [hiding d (start + 500 + 2500 * length (texts d)),
            revealed d (start + 500 + 2500 * length (texts d) + 800)]"
    by simp
qed

lemma count_only: "j < n \<Longrightarrow> count_list (only n j) True = 1"
  by (simp add: only_def upd_conv_take_nth_drop count_list_append)

lemma timeline_texts:
  "map (\<lambda>x. texts (snd x)) (timeline start d) =
     (if texts d = [] then [[]]
      else map (only (length (texts d))) [0..<length (texts d)] @
           [only (length (texts d)) (length (texts d) - 1),
            only (length (texts d)) (length (texts d) - 1)])"
proof (cases "texts d = []")
  case True
  then show ?thesis
    by (cases d) (auto simp: timeline_def initTextFading_def Let_def split: option.splits)
next
  case False
  show ?thesis
    using False
    by (simp add: timeline_def run_initTextFading [OF False] showing_def hiding_def
          revealed_def comp_def)
qed

lemma timeline_nonempty:
  assumes "texts d \<noteq> []"
  shows "timeline start d =
     map (\<lambda>j. (start + 500 + 2500 * j, d\<lparr>texts := only (length (texts d)) j\<rparr>))
       [0..<length (texts d)] @
     [(start + 500 + 2500 * length (texts d),
       d\<lparr>texts := only (length (texts d)) (length (texts d) - 1),
         openingSection := map_option (\<lambda>hidden. True) (openingSection d)\<rparr>),
      (start + 500 + 2500 * length (texts d) + 800,
       d\<lparr>texts := only (length (texts d)) (length (texts d) - 1),
         openingSection := map_option (\<lambda>hidden. True) (openingSection d),
         envelopeWrapper := map_option (\<lambda>block. True) (envelopeWrapper d)\<rparr>)]"
  by (simp add: timeline_def run_initTextFading [OF assms] showing_def hiding_def revealed_def
        comp_def)

text \<open>
  C1, in the form that holds of the code: after every step of the sequencer exactly one
  text item carries \<^verbatim>\<open>active\<close> (none only when there is no text item at all): item \<open>j\<close>
  alone after the \<open>j\<close>-th call of \<^verbatim>\<open>showNextText\<close>. The last item is not deactivated: the
  step at the end of its dwell time only hides the opening section, and the item still
  carries \<^verbatim>\<open>active\<close> then and when the envelope wrapper is shown.
\<close>

theorem active_items:
  "timeline start d =
     (if texts d = [] then
        [(start, d\<lparr>envelopeWrapper := map_option (\<lambda>block. True) (envelopeWrapper d),
                   openingSection := map_option (\<lambda>hidden. True) (openingSection d)\<rparr>)]
      else
        map (\<lambda>j. (start + 500 + 2500 * j, d\<lparr>texts := only (length (texts d)) j\<rparr>))
          [0..<length (texts d)] @
        [(start + 500 + 2500 * length (texts d),
          d\<lparr>texts := only (length (texts d)) (length (texts d) - 1),
            openingSection := map_option (\<lambda>hidden. True) (openingSection d)\<rparr>),
         (start + 500 + 2500 * length (texts d) + 800,
          d\<lparr>texts := only (length (texts d)) (length (texts d) - 1),
            openingSection := map_option (\<lambda>hidden. True) (openingSection d),
            envelopeWrapper := map_option (\<lambda>block. True) (envelopeWrapper d)\<rparr>)]) \<and>
   (\<forall>x \<in> set (timeline start d). count_list (texts (snd x)) True = (if texts d = [] then 0 else 1))"
proof -
  have "\<forall>ts \<in> set (map (\<lambda>x. texts (snd x)) (timeline start d)).
          count_list ts True = (if texts d = [] then 0 else 1)"
    unfolding timeline_texts by (auto simp: count_only)
  then have c: "\<forall>x \<in> set (timeline start d).
          count_list (texts (snd x)) True = (if texts d = [] then 0 else 1)"
    by simp
  show ?thesis
  proof (cases "texts d = []")
    case True
    then have "timeline start d =
        [(start, d\<lparr>envelopeWrapper := map_option (\<lambda>block. True) (envelopeWrapper d),
                   openingSection := map_option (\<lambda>hidden. True) (openingSection d)\<rparr>)]"
      by (cases d) (auto simp: timeline_def initTextFading_def Let_def split: option.splits)
    with c True show ?thesis
      by (simp only: if_True simp_thms)
  next
    case False
    from timeline_nonempty [OF False, of start] c False show ?thesis
      by (simp only: if_False simp_thms)
  qed
qed

theorem active_items_witness:
  "timeline 0 \<lparr>texts = [True, True], openingSection = Some False, envelopeWrapper = Some False\<rparr> =
     [(500, \<lparr>texts = [True, False], openingSection = Some False, envelopeWrapper = Some False\<rparr>),
      (3000, \<lparr>texts = [False, True], openingSection = Some False, envelopeWrapper = Some False\<rparr>),
      (5500, \<lparr>texts = [False, True], openingSection = Some True, envelopeWrapper = Some False\<rparr>),
      (6300, \<lparr>texts = [False, True], openingSection = Some True, envelopeWrapper = Some True\<rparr>)]"
  using active_items [of 0 "\<lparr>texts = [True, True], openingSection = Some False, envelopeWrapper = Some False\<rparr>"]
  by (simp add: only_def upt_rec [of 0] upt_rec [of 1] upt_rec [of 2])

text \<open>
  With one text item, the item is still active at the end of the run, at 3800, when the
  envelope wrapper has been shown.
\<close>

theorem last_item_stays_active:
  "last (timeline 0 \<lparr>texts = [False], openingSection = Some False, envelopeWrapper = Some False\<rparr>) =
     (3800, \<lparr>texts = [True], openingSection = Some True, envelopeWrapper = Some True\<rparr>) \<and>
   count_list (texts (snd (last (timeline 0
      \<lparr>texts = [False], openingSection = Some False, envelopeWrapper = Some False\<rparr>)))) True \<noteq> 0"
  by (simp add: timeline_nonempty only_def)

text \<open>
  C2, in the form that holds of the code: for three text items and a call at time 0, item A
  alone is active at 500, B at 3000 and C at 5500; at 8000 the opening section gets the
  class \<^verbatim>\<open>hidden\<close> while item C keeps \<^verbatim>\<open>active\<close>; at 8800 the envelope wrapper is shown.
\<close>

theorem three_items_schedule:
  "timeline 0 \<lparr>texts = [a, b, c], openingSection = Some h, envelopeWrapper = Some e\<rparr> =
     [(500, \<lparr>texts = [True, False, False], openingSection = Some h, envelopeWrapper = Some e\<rparr>),
      (3000, \<lparr>texts = [False, True, False], openingSection = Some h, envelopeWrapper = Some e\<rparr>),
      (5500, \<lparr>texts = [False, False, True], openingSection = Some h, envelopeWrapper = Some e\<rparr>),
      (8000, \<lparr>texts = [False, False, True], openingSection = Some True, envelopeWrapper = Some e\<rparr>),
      (8800, \<lparr>texts = [False, False, True], openingSection = Some True, envelopeWrapper = Some True\<rparr>)]"
proof -
  let ?d = "\<lparr>texts = [a, b, c], openingSection = Some h, envelopeWrapper = Some e\<rparr>"
  have ne: "texts ?d \<noteq> []"
    by simp
  let ?s = "\<lparr>doc = ?d, currentTextIndex = 0, clock = 0, pending = [(500, ShowNextText)]\<rparr>"
  have i: "initTextFading 0 ?d = Animating ?s"
    using run_initTextFading(1) [OF ne, of 0] by simp
  have r: "run ?s =
             [showing ?d 500 0, showing ?d 3000 1, showing ?d 5500 (Suc 1), hiding ?d 8000,
              revealed ?d 8800]"
    using run_initTextFading(2) [OF ne, of 0]
    by (simp add: upt_rec [of 0] upt_rec [of 1] upt_rec [of 2] upt_rec [of 3])
  show ?thesis
    by (simp add: timeline_def i r showing_def hiding_def revealed_def only_def)
qed

text \<open>
  At 8000 the third item has not been deactivated.
\<close>

theorem three_items_not_deactivated:
  "timeline 0 \<lparr>texts = [False, False, False], openingSection = Some False,
                envelopeWrapper = Some False\<rparr> ! 3 =
     (8000, \<lparr>texts = [False, False, True], openingSection = Some True,
             envelopeWrapper = Some False\<rparr>) \<and>
   texts (snd (timeline 0 \<lparr>texts = [False, False, False], openingSection = Some False,
                envelopeWrapper = Some False\<rparr> ! 3)) \<noteq> [False, False, False]"
  by (simp add: timeline_nonempty only_def upt_rec [of 0] upt_rec [of 1] upt_rec [of 2] upt_rec [of 3])

text \<open>
  C9: the cursor is created with value 0, every call of \<^verbatim>\<open>showNextText\<close> in the run
  advances it by exactly one, the two later callbacks leave it alone, and it never exceeds
  the number of text items. With no text item, no cursor is created.
\<close>

theorem cursor_advance:
  "case initTextFading start d of
     EarlyReturn d' \<Rightarrow> texts d = []
   | Animating s \<Rightarrow>
       currentTextIndex s = 0 \<and>
       map currentTextIndex (run s) =
         map Suc [0..<length (texts d)] @ [length (texts d), length (texts d)] \<and>
       (\<forall>s' \<in> set (run s). currentTextIndex s' \<le> length (texts d))"
proof (cases "texts d = []")
  case True
  then show ?thesis
    by (simp add: initTextFading_def Let_def)
next
  case False
  have m: "map currentTextIndex (run \<lparr>doc = d, currentTextIndex = 0, clock = start,
                                      pending = [(start + 500, ShowNextText)]\<rparr>) =
           map Suc [0..<length (texts d)] @ [length (texts d), length (texts d)]"
    by (simp add: run_initTextFading(2) [OF False] showing_def hiding_def revealed_def comp_def)
  have "\<forall>i \<in> set (map Suc [0..<length (texts d)] @ [length (texts d), length (texts d)]).
          i \<le> length (texts d)"
    by auto
  then have "\<forall>i \<in> set (map currentTextIndex (run \<lparr>doc = d, currentTextIndex = 0, clock = start,
                                      pending = [(start + 500, ShowNextText)]\<rparr>)).
          i \<le> length (texts d)"
    by (simp only: m)
  then have "\<forall>s' \<in> set (run \<lparr>doc = d, currentTextIndex = 0, clock = start,
                                pending = [(start + 500, ShowNextText)]\<rparr>).
          currentTextIndex s' \<le> length (texts d)"
    by simp
  with m show ?thesis
    by (simp only: run_initTextFading(1) [OF False] init_result.case sequencer.simps simp_thms)
qed

theorem cursor_advance_witness:
  "(case initTextFading 0 \<lparr>texts = [False, False], openingSection = None, envelopeWrapper = None\<rparr> of
     EarlyReturn d' \<Rightarrow> False
   | Animating s \<Rightarrow> currentTextIndex s = 0 \<and> map currentTextIndex (run s) = [1, 2, 2, 2])"
  using cursor_advance [where start = 0 and d = "\<lparr>texts = [False, False], openingSection = None, envelopeWrapper = None\<rparr>"]
  by (simp add: initTextFading_def upt_rec [of 0] upt_rec [of 1] upt_rec [of 2])

section \<open>Properties of the letter animation\<close>

lemma chars_forEach_wrap:
  "chars_forEach chars (h, delay_at k) = (h @ wrap delay_at k chars, delay_at (k + length chars))"
proof (induction chars arbitrary: h k)
  case Nil
  then show ?case by (simp add: wrap_def)
next
  case (Cons c cs)
  have "chars_forEach (c # cs) (h, delay_at k) =
        chars_forEach cs (h @ [Span (delay_at k) (if c = str '' '' then str ''&nbsp;'' else c)],
                          delay_at (Suc k))"
    by (simp add: Let_def)
  then show ?case
    by (simp add: Cons wrap_def del: delay_at.simps)
qed

lemma wrap_lines_Cons:
  "ls \<noteq> [] \<Longrightarrow>
   wrap_lines dl k (l # ls) = wrap dl k (spread l) @ Br # wrap_lines dl (k + length (spread l)) ls"
  by (cases ls) simp_all

lemma lines_forEach_wrap:
  assumes "ls \<noteq> []" "i + length ls = n"
  shows "fst (lines_forEach n ls i (h, delay_at k)) = h @ wrap_lines delay_at k ls"
  using assms
proof (induction ls arbitrary: i h k)
  case Nil
  then show ?case by simp
next
  case (Cons l ls)
  show ?case
  proof (cases "ls = []")
    case True
    then show ?thesis
      using Cons.prems by (simp add: chars_forEach_wrap)
  next
    case False
    then have "int i < int n - 1"
      using Cons.prems by (cases ls) auto
    then have step: "lines_forEach n (l # ls) i (h, delay_at k) =
                     lines_forEach n ls (i + 1)
                       (h @ wrap delay_at k (spread l) @ [Br], delay_at (k + length (spread l)))"
      by (simp add: chars_forEach_wrap)
    have "fst (lines_forEach n ls (i + 1)
                (h @ wrap delay_at k (spread l) @ [Br], delay_at (k + length (spread l)))) =
          (h @ wrap delay_at k (spread l) @ [Br]) @ wrap_lines delay_at (k + length (spread l)) ls"
      using Cons.prems False by (intro Cons.IH) auto
    then show ?thesis
      by (simp only: step wrap_lines_Cons [OF False] append_assoc append_Cons append_Nil)
  qed
qed

lemma split_nonempty: "split piece s \<noteq> []"
  by (induction piece s rule: split.induct) (auto split: option.splits)

lemma letters_refine:
  "letters innerHTML =
     wrap_lines delay_at 0 (split [] (trim (filter (\<lambda>c. c \<noteq> codeunit CHR 0x0D) innerHTML)))"
proof -
  have "Finite 0 = delay_at 0"
    by simp
  then show ?thesis
    unfolding letters_def Let_def
    by (simp only: lines_forEach_wrap [OF split_nonempty, of 0, simplified] append_Nil)
qed

lemma delays_append: "delays (ps @ qs) = delays ps @ delays qs"
  by (simp add: delays_def)

lemma upt_split: "[k..<k + a] @ [k + a..<k + a + b] = [k..<k + a + (b::nat)]"
  using upt_add_eq_append [of k "k + a" b] by simp

lemma delays_wrap: "delays (wrap dl k chars) = map dl [k..<k + length chars]"
proof (induction chars arbitrary: k)
  case Nil
  then show ?case by (simp add: wrap_def delays_def)
next
  case (Cons c cs)
  have "delays (wrap dl k (c # cs)) = dl k # delays (wrap dl (Suc k) cs)"
    by (simp add: wrap_def delays_def)
  also have "\<dots> = dl k # map dl [Suc k..<Suc k + length cs]"
    by (simp only: Cons)
  also have "\<dots> = map dl (k # [Suc k..<Suc k + length cs])"
    by simp
  also have "k # [Suc k..<Suc k + length cs] = [k..<Suc k + length cs]"
    by (rule upt_conv_Cons [symmetric]) simp
  finally show ?case
    by simp
qed

lemma delays_wrap_lines:
  "delays (wrap_lines dl k ls) = map dl [k..<k + length (concat (map spread ls))]"
proof (induction dl k ls rule: wrap_lines.induct)
  case (1 dl k)
  then show ?case by (simp add: delays_def)
next
  case (2 dl k line)
  then show ?case by (simp add: delays_wrap)
next
  case (3 dl k line l ls)
  have "delays [Br] = []"
    by (simp add: delays_def)
  then have "delays (wrap_lines dl k (line # l # ls)) =
        map dl ([k..<k + length (spread line)] @
          [k + length (spread line)..<
             k + length (spread line) + length (concat (map spread (l # ls)))])"
    using 3 by (simp add: delays_append delays_wrap del: wrap_lines.simps(2) append.simps upt.simps)
  also have "\<dots> = map dl [k..<k + length (spread line) + length (concat (map spread (l # ls)))]"
    by (simp only: upt_split)
  finally show ?case
    by (simp add: add.assoc)
qed

lemmas deco_eval = delay_increment_def letters_def spec_letters_def spec_delay_def str_def
  codeunit_def trim_def isWhiteSpace_def match_br_def isLeadingSurrogate_def
  isTrailingSurrogate_def wrap_def

text \<open>
  C3, in the form that holds of the code: the decorator strips the carriage returns, trims
  the white space at both ends of the text, splits it at the line breaks, wraps every
  character of every line in a \<^verbatim>\<open>span\<close> (a space as \<^verbatim>\<open>&nbsp;\<close>) and puts \<^verbatim>\<open><br>\<close> between
  the lines. The delay of a character is the Number obtained by adding 0.05 to 0
  once for every character before it in the whole text, every sum rounded: the numbering
  is not reset at a line break, and the delay is not always the Number for 0.05 times the
  position. What is written back to each paragraph is these pieces written out, whatever
  decimal form the template literal gives a delay.
\<close>

theorem letters_cumulative:
  "letters innerHTML =
     wrap_lines delay_at 0 (split [] (trim (filter (\<lambda>c. c \<noteq> codeunit CHR 0x0D) innerHTML))) \<and>
   delays (letters innerHTML) =
     map delay_at
       [0..<length (concat (map spread
              (split [] (trim (filter (\<lambda>c. c \<noteq> codeunit CHR 0x0D) innerHTML)))))] \<and>
   textElements_forEach numstr paragraphs =
     Inr (map (\<lambda>p. render numstr
                 (wrap_lines delay_at 0 (split [] (trim (filter (\<lambda>c. c \<noteq> codeunit CHR 0x0D) p)))))
            paragraphs)"
  by (simp add: letters_refine delays_wrap_lines textElements_forEach_def)

text \<open>
  The example of the specification: the numbering runs on behind the line break. The
  delays are 0, 0.05, 0.1 and 0.15000000000000002, which is not the Number for 0.15.
\<close>

theorem letters_example:
  "letters (str ''Hi<br>Yo'') =
     [Span (Finite 0) (str ''H''), Span (Finite (3602879701896397 / 2 ^ 56)) (str ''i''), Br,
      Span (Finite (3602879701896397 / 2 ^ 55)) (str ''Y''),
      Span (Finite (5404319552844596 / 2 ^ 55)) (str ''o'')] \<and>
   number_of (15 / 100) = Finite (5404319552844595 / 2 ^ 55)"
  using letters_cumulative [of "str ''Hi<br>Yo''" "\<lambda>delay. []" "[]"]
  by (simp add: deco_eval num_eval cong: let_weak_cong)

text \<open>
  A leading space is removed by \<^verbatim>\<open>trim\<close>, where in the specification's words it would be
  wrapped. And the ninth character gets the delay 0.39999999999999997, where 0.05 times 8
  is 0.4, as a decimal and as a product of Numbers.
\<close>

theorem letters_differ:
  "letters (str '' a'') = [Span (Finite 0) (str ''a'')] \<and>
   spec_letters (str '' a'') =
     [Span (Finite 0) (str ''&nbsp;''), Span (Finite (3602879701896397 / 2 ^ 56)) (str ''a'')] \<and>
   letters (str ''abcdefghi'') ! 8 = Span (Finite (7205759403792793 / 2 ^ 54)) (str ''i'') \<and>
   spec_letters (str ''abcdefghi'') ! 8 = Span (Finite (7205759403792794 / 2 ^ 54)) (str ''i'') \<and>
   number_of (8 * (3602879701896397 / 2 ^ 56)) = Finite (7205759403792794 / 2 ^ 54)"
  by (simp add: deco_eval num_eval cong: let_weak_cong)

text \<open>
  The carriage returns are removed before the characters are told apart: the two halves of
  a surrogate pair with a carriage return between them become one character. Two halves in
  the wrong order are two characters.
\<close>

lemma letters_surrogates:
  "letters [0xD83D, 0x0D, 0xDE00] = [Span (Finite 0) [0xD83D, 0xDE00]]"
  "letters [0xDE00, 0xD83D] =
     [Span (Finite 0) [0xDE00], Span (Finite (3602879701896397 / 2 ^ 56)) [0xD83D]]"
  by (simp_all add: deco_eval num_eval cong: let_weak_cong)

section \<open>Properties of the envelope click handler\<close>

lemma set_enqueue [simp]: "set (enqueue x q) = insert x (set q)"
  by (induction q) auto

lemma number_of_5: "number_of 5 = Finite 5"
  by (simp add: num_eval cong: let_weak_cong)

lemma triggered_by_alt:
  "triggered_by evs T \<longleftrightarrow>
     (\<exists>ev \<in> set evs.
        case snd ev of
          Click \<Rightarrow> False
        | Scroll m \<Rightarrow> isAtBottom m \<and> armed_at evs (fst ev) \<and> T = fst ev + 1000)"
  unfolding triggered_by_def isAtBottom_def number_of_5 by (rule refl)

lemma armed_at_mono:
  "armed_at evs t \<Longrightarrow> set evs \<subseteq> set evs' \<Longrightarrow> t \<le> t' \<Longrightarrow> armed_at evs' t'"
  unfolding armed_at_def by (meson le_trans subsetD)

lemma triggered_by_mono:
  assumes "triggered_by evs T" "set evs \<subseteq> set evs'"
  shows "triggered_by evs' T"
proof -
  from assms(1) obtain ev where ev: "ev \<in> set evs"
    and h: "case snd ev of Click \<Rightarrow> False
            | Scroll m \<Rightarrow> isAtBottom m \<and> armed_at evs (fst ev) \<and> T = fst ev + 1000"
    unfolding triggered_by_alt by blast
  have "armed_at evs (fst ev) \<Longrightarrow> armed_at evs' (fst ev)"
    using assms(2) by (auto elim: armed_at_mono)
  with h have "case snd ev of Click \<Rightarrow> False
            | Scroll m \<Rightarrow> isAtBottom m \<and> armed_at evs' (fst ev) \<and> T = fst ev + 1000"
    by (cases "snd ev") auto
  with ev assms(2) show ?thesis
    unfolding triggered_by_alt by blast
qed

lemma arm_due_mono: "arm_due evs d \<Longrightarrow> set evs \<subseteq> set evs' \<Longrightarrow> arm_due evs' d"
  unfolding arm_due_def by blast

lemma exec_scrollTo_times:
  "now s = d \<Longrightarrow> set (scrollTo_times (exec cb s)) \<subseteq>
     set (scrollTo_times s) \<union> (if cb = ScrollToTop then {d} else {})"
  by (cases cb) (auto simp: scrollTo_times_def split: option.splits)

lemma exec_listeners:
  "0 < listeners (exec cb s) \<Longrightarrow> 0 < listeners s \<or> cb = ArmScroll"
  by (cases cb) (auto simp: listeners_def split: option.splits)

lemma fire_due_timers: "set (timers (fire_due t s)) \<subseteq> set (timers s)"
proof (induction t s rule: fire_due.induct)
  case (1 t s)
  show ?case
  proof (cases "timers s")
    case Nil
    then show ?thesis by (simp add: fire_due.simps [of t s])
  next
    case (Cons x rest)
    obtain d cb where x: "x = (d, cb)" by (cases x)
    show ?thesis
    proof (cases "d \<le> t")
      case True
      from "1.IH" [OF Cons x [symmetric] True]
      show ?thesis
        using Cons x True by (auto simp: fire_due.simps [of t s])
    next
      case False
      then show ?thesis
        using Cons x by (simp add: fire_due.simps [of t s])
    qed
  qed
qed

lemma fire_due_scrollTo_times:
  assumes "\<forall>x \<in> set (timers s). snd x = ScrollToTop \<longrightarrow> P (fst x)"
    and "\<forall>T \<in> set (scrollTo_times s). P T"
  shows "\<forall>T \<in> set (scrollTo_times (fire_due t s)). P T"
  using assms
proof (induction t s rule: fire_due.induct)
  case (1 t s)
  show ?case
  proof (cases "timers s")
    case Nil
    then show ?thesis using "1.prems" by (simp add: fire_due.simps [of t s])
  next
    case (Cons x rest)
    obtain d cb where x: "x = (d, cb)" by (cases x)
    show ?thesis
    proof (cases "d \<le> t")
      case True
      let ?s1 = "exec cb (s\<lparr>now := d, timers := rest\<rparr>)"
      have a: "\<forall>x \<in> set (timers ?s1). snd x = ScrollToTop \<longrightarrow> P (fst x)"
        using "1.prems"(1) Cons by simp
      have "set (scrollTo_times ?s1) \<subseteq>
              set (scrollTo_times (s\<lparr>now := d, timers := rest\<rparr>)) \<union> (if cb = ScrollToTop then {d} else {})"
        by (rule exec_scrollTo_times) simp
      moreover have "scrollTo_times (s\<lparr>now := d, timers := rest\<rparr>) = scrollTo_times s"
        by (simp add: scrollTo_times_def)
      moreover have "cb = ScrollToTop \<longrightarrow> P d"
        using "1.prems"(1) Cons x by simp
      ultimately have b: "\<forall>T \<in> set (scrollTo_times ?s1). P T"
        using "1.prems"(2) by (auto split: if_splits)
      from "1.IH" [OF Cons x [symmetric] True a b]
      show ?thesis
        using Cons x True by (simp add: fire_due.simps [of t s])
    next
      case False
      then show ?thesis
        using Cons x "1.prems" by (simp add: fire_due.simps [of t s])
    qed
  qed
qed

lemma fire_due_listeners:
  assumes "0 < listeners (fire_due t s)"
  shows "0 < listeners s \<or> (\<exists>x \<in> set (timers s). snd x = ArmScroll \<and> fst x \<le> t)"
  using assms
proof (induction t s rule: fire_due.induct)
  case (1 t s)
  show ?case
  proof (cases "timers s")
    case Nil
    then show ?thesis using "1.prems" by (simp add: fire_due.simps [of t s])
  next
    case (Cons x rest)
    obtain d cb where x: "x = (d, cb)" by (cases x)
    show ?thesis
    proof (cases "d \<le> t")
      case True
      let ?s1 = "exec cb (s\<lparr>now := d, timers := rest\<rparr>)"
      have "0 < listeners (fire_due t ?s1)"
        using "1.prems" Cons x True by (simp add: fire_due.simps [of t s])
      from "1.IH" [OF Cons x [symmetric] True this]
      have "0 < listeners ?s1 \<or> (\<exists>x \<in> set rest. snd x = ArmScroll \<and> fst x \<le> t)"
        by simp
      moreover have "0 < listeners ?s1 \<Longrightarrow> 0 < listeners s \<or> cb = ArmScroll"
        using exec_listeners [of cb "s\<lparr>now := d, timers := rest\<rparr>"]
        by (simp add: listeners_def)
      ultimately show ?thesis
        using Cons x True by auto
    next
      case False
      then show ?thesis
        using Cons x "1.prems" by (simp add: fire_due.simps [of t s])
    qed
  qed
qed

lemma handle_Click:
  "timers (handle Click s) =
     (if cardContentElement s = None then timers s
      else enqueue (now s + 1000, ArmScroll) (timers s))"
  "cardContentElement (handle Click s) = cardContentElement s"
  by (auto simp: open_envelope_click_def Let_def setTimeout_def split: option.splits)

lemma scroll_listener_content [simp]:
  "cardContentElement (scroll_listener m s) = cardContentElement s"
  by (simp add: scroll_listener_def)

lemma scroll_listener_now [simp]: "now (scroll_listener m s) = now s"
  by (simp add: scroll_listener_def)

lemma scroll_listener_timers:
  "set (timers (scroll_listener m s)) =
     set (timers s) \<union> (if isAtBottom m then {(now s + 1000, ScrollToTop)} else {})"
  by (simp add: scroll_listener_def setTimeout_def)

lemma scroll_listeners_content [simp]:
  "cardContentElement (((scroll_listener m) ^^ k) s) = cardContentElement s"
  by (induction k) simp_all

lemma scroll_listeners_now [simp]: "now (((scroll_listener m) ^^ k) s) = now s"
  by (induction k) simp_all

lemma scroll_listeners_timers:
  "set (timers (((scroll_listener m) ^^ k) s)) =
     set (timers s) \<union> (if isAtBottom m \<and> 0 < k then {(now s + 1000, ScrollToTop)} else {})"
  by (induction k) (auto simp: scroll_listener_timers)

lemma handle_Scroll:
  "cardContentElement (handle (Scroll m) s) = cardContentElement s"
  "set (timers (handle (Scroll m) s)) =
     set (timers s) \<union>
     (if isAtBottom m \<and> 0 < listeners s then {(now s + 1000, ScrollToTop)} else {})"
  by (auto simp: listeners_def scroll_listeners_timers split: option.splits)

lemma deliver_inv:
  assumes "inv evs s" "\<forall>ev \<in> set evs. fst ev \<le> t"
  shows "inv (evs @ [(t, e)]) (deliver s (t, e))"
proof -
  let ?evs = "evs @ [(t, e)]"
  let ?s1 = "fire_due t s"
  let ?s2 = "?s1\<lparr>now := t\<rparr>"
  have sub: "set evs \<subseteq> set ?evs"
    by auto
  have t1: "\<forall>x \<in> set (timers ?s2).
        case snd x of ArmScroll \<Rightarrow> arm_due ?evs (fst x) | ScrollToTop \<Rightarrow> triggered_by ?evs (fst x)"
  proof
    fix x assume "x \<in> set (timers ?s2)"
    then have "x \<in> set (timers s)"
      using fire_due_timers [of t s] by auto
    with assms(1) have "case snd x of ArmScroll \<Rightarrow> arm_due evs (fst x)
                        | ScrollToTop \<Rightarrow> triggered_by evs (fst x)"
      unfolding inv_def by blast
    then show "case snd x of ArmScroll \<Rightarrow> arm_due ?evs (fst x)
               | ScrollToTop \<Rightarrow> triggered_by ?evs (fst x)"
      using arm_due_mono [OF _ sub] triggered_by_mono [OF _ sub]
      by (cases "snd x") auto
  qed
  have l1: "armed_at evs t" if "0 < listeners ?s1"
  proof -
    from fire_due_listeners [OF that]
    show ?thesis
    proof
      assume "0 < listeners s"
      with assms show ?thesis
        unfolding inv_def by blast
    next
      assume "\<exists>x \<in> set (timers s). snd x = ArmScroll \<and> fst x \<le> t"
      then obtain x where x: "x \<in> set (timers s)" "snd x = ArmScroll" "fst x \<le> t"
        by blast
      with assms(1) have "arm_due evs (fst x)"
        unfolding inv_def by force
      with x(3) show ?thesis
        unfolding arm_due_def armed_at_def by auto
    qed
  qed
  have c1: "\<forall>T \<in> set (scrollTo_times ?s1). triggered_by evs T"
  proof (rule fire_due_scrollTo_times)
    show "\<forall>x \<in> set (timers s). snd x = ScrollToTop \<longrightarrow> triggered_by evs (fst x)"
      using assms(1) unfolding inv_def by force
    show "\<forall>T \<in> set (scrollTo_times s). triggered_by evs T"
      using assms(1) unfolding inv_def by blast
  qed
  have lis: "listeners (handle e ?s2) = listeners ?s1"
    by (cases e) (simp_all add: listeners_def handle_Click(2) handle_Scroll(1) del: handle.simps)
  have sct: "scrollTo_times (handle e ?s2) = scrollTo_times ?s1"
    by (cases e) (simp_all add: scrollTo_times_def handle_Click(2) handle_Scroll(1) del: handle.simps)
  have i1: "\<forall>x \<in> set (timers (handle e ?s2)).
        case snd x of ArmScroll \<Rightarrow> arm_due ?evs (fst x) | ScrollToTop \<Rightarrow> triggered_by ?evs (fst x)"
  proof (cases e)
    case Click
    have "arm_due ?evs (t + 1000)"
      unfolding arm_due_def using Click by auto
    then show ?thesis
      using t1 Click by (auto simp: handle_Click(1) simp del: handle.simps)
  next
    case (Scroll m)
    have "triggered_by ?evs (t + 1000)" if "isAtBottom m" "0 < listeners ?s2"
    proof -
      have "0 < listeners ?s1"
        using that(2) by (simp add: listeners_def)
      then have "armed_at ?evs t"
        using l1 sub armed_at_mono by blast
      then show ?thesis
        unfolding triggered_by_alt using Scroll that(1) by (auto intro!: bexI [of _ "(t, e)"])
    qed
    moreover have "set (timers (handle e ?s2)) =
        set (timers ?s2) \<union>
        (if isAtBottom m \<and> 0 < listeners ?s2 then {(t + 1000, ScrollToTop)} else {})"
      unfolding Scroll handle_Scroll(2) by simp
    ultimately show ?thesis
      using t1 by (auto split: if_splits simp del: handle.simps)
  qed
  have i2: "0 < listeners (handle e ?s2) \<longrightarrow>
            (\<forall>t'. (\<forall>ev \<in> set ?evs. fst ev \<le> t') \<longrightarrow> armed_at ?evs t')"
  proof (intro impI allI)
    fix t' assume "0 < listeners (handle e ?s2)" "\<forall>ev \<in> set ?evs. fst ev \<le> t'"
    then have "armed_at evs t" "t \<le> t'"
      using l1 lis by auto
    then show "armed_at ?evs t'"
      using sub armed_at_mono by blast
  qed
  have i3: "\<forall>T \<in> set (scrollTo_times (handle e ?s2)). triggered_by ?evs T"
    using c1 sct triggered_by_mono [OF _ sub] by auto
  show ?thesis
    unfolding inv_def deliver_def using i1 i2 i3 by simp
qed

lemma play_inv:
  assumes "sorted (map fst evs)" "loaded s"
  shows "inv evs (play evs s)"
  using assms
proof (induction evs rule: rev_induct)
  case Nil
  then show ?case
    by (simp add: inv_def play_def loaded_def)
next
  case (snoc ev evs)
  obtain t e where ev: "ev = (t, e)" by (cases ev)
  from snoc.prems(1) have "sorted (map fst evs)" "\<forall>x \<in> set evs. fst x \<le> t"
    by (auto simp: sorted_append ev)
  with snoc.IH snoc.prems(2) have "inv (evs @ [(t, e)]) (deliver (play evs s) (t, e))"
    by (intro deliver_inv) auto
  then show ?case
    by (simp add: play_def ev)
qed

lemma sorted_enqueue: "sorted (map fst q) \<Longrightarrow> sorted (map fst (enqueue x q))"
  by (induction q) (auto simp: less_imp_le)

lemma exec_content: "cardContentElement (exec cb s) = None \<longleftrightarrow> cardContentElement s = None"
  by (cases cb) (auto split: option.splits)

lemma exec_listeners_mono: "listeners s \<le> listeners (exec cb s)"
  by (cases cb) (auto simp: listeners_def split: option.splits)

lemma exec_calls_mono: "set (scrollTo_times s) \<subseteq> set (scrollTo_times (exec cb s))"
  by (cases cb) (auto simp: scrollTo_times_def split: option.splits)

lemma exec_ArmScroll: "cardContentElement s \<noteq> None \<Longrightarrow> 0 < listeners (exec ArmScroll s)"
  by (auto simp: listeners_def split: option.splits)

lemma exec_ScrollToTop:
  "cardContentElement s \<noteq> None \<Longrightarrow> now s \<in> set (scrollTo_times (exec ScrollToTop s))"
  by (auto simp: scrollTo_times_def split: option.splits)

lemma fire_due_content:
  "cardContentElement (fire_due t s) = None \<longleftrightarrow> cardContentElement s = None"
proof (induction t s rule: fire_due.induct)
  case (1 t s)
  show ?case
  proof (cases "timers s")
    case Nil
    then show ?thesis by (simp add: fire_due.simps [of t s])
  next
    case (Cons x rest)
    obtain d cb where x: "x = (d, cb)" by (cases x)
    show ?thesis
    proof (cases "d \<le> t")
      case True
      from "1.IH" [OF Cons x [symmetric] True]
      show ?thesis
        using Cons x True by (simp add: fire_due.simps [of t s] exec_content)
    next
      case False
      then show ?thesis
        using Cons x by (simp add: fire_due.simps [of t s])
    qed
  qed
qed

lemma fire_due_mono:
  "listeners s \<le> listeners (fire_due t s) \<and>
   set (scrollTo_times s) \<subseteq> set (scrollTo_times (fire_due t s))"
proof (induction t s rule: fire_due.induct)
  case (1 t s)
  show ?case
  proof (cases "timers s")
    case Nil
    then show ?thesis by (simp add: fire_due.simps [of t s])
  next
    case (Cons x rest)
    obtain d cb where x: "x = (d, cb)" by (cases x)
    show ?thesis
    proof (cases "d \<le> t")
      case True
      let ?s0 = "s\<lparr>now := d, timers := rest\<rparr>"
      have "listeners s = listeners ?s0" "scrollTo_times s = scrollTo_times ?s0"
        by (simp_all add: listeners_def scrollTo_times_def)
      with "1.IH" [OF Cons x [symmetric] True]
        exec_listeners_mono [of ?s0 cb] exec_calls_mono [of ?s0 cb]
      have "listeners s \<le> listeners (fire_due t (exec cb ?s0)) \<and>
            set (scrollTo_times s) \<subseteq> set (scrollTo_times (fire_due t (exec cb ?s0)))"
        by auto
      then show ?thesis
        using Cons x True by (simp add: fire_due.simps [of t s])
    next
      case False
      then show ?thesis
        using Cons x by (simp add: fire_due.simps [of t s])
    qed
  qed
qed

lemma fire_due_sorted:
  "sorted (map fst (timers s)) \<Longrightarrow>
   sorted (map fst (timers (fire_due t s))) \<and> (\<forall>x \<in> set (timers (fire_due t s)). t < fst x)"
proof (induction t s rule: fire_due.induct)
  case (1 t s)
  show ?case
  proof (cases "timers s")
    case Nil
    then show ?thesis by (simp add: fire_due.simps [of t s])
  next
    case (Cons x rest)
    obtain d cb where x: "x = (d, cb)" by (cases x)
    show ?thesis
    proof (cases "d \<le> t")
      case True
      have "sorted (map fst (timers (exec cb (s\<lparr>now := d, timers := rest\<rparr>))))"
        using "1.prems" Cons by simp
      from "1.IH" [OF Cons x [symmetric] True this]
      show ?thesis
        using Cons x True by (simp add: fire_due.simps [of t s])
    next
      case False
      then show ?thesis
        using Cons x "1.prems" by (auto simp: fire_due.simps [of t s])
    qed
  qed
qed

lemma fire_due_served:
  assumes "cardContentElement s \<noteq> None" "(d, cb) \<in> set (timers s)"
  shows "(d, cb) \<in> set (timers (fire_due t s)) \<or>
         (case cb of ArmScroll \<Rightarrow> 0 < listeners (fire_due t s)
          | ScrollToTop \<Rightarrow> d \<in> set (scrollTo_times (fire_due t s)))"
  using assms
proof (induction t s rule: fire_due.induct)
  case (1 t s)
  show ?case
  proof (cases "timers s")
    case Nil
    then show ?thesis using "1.prems" by simp
  next
    case (Cons x rest)
    obtain d' cb' where x: "x = (d', cb')" by (cases x)
    show ?thesis
    proof (cases "d' \<le> t")
      case True
      let ?s0 = "s\<lparr>now := d', timers := rest\<rparr>"
      let ?s1 = "exec cb' ?s0"
      have f: "fire_due t s = fire_due t ?s1"
        using Cons x True by (simp add: fire_due.simps [of t s])
      have c0: "cardContentElement ?s0 \<noteq> None"
        using "1.prems"(1) by simp
      then have c1: "cardContentElement ?s1 \<noteq> None"
        by (simp add: exec_content)
      show ?thesis
      proof (cases "(d, cb) \<in> set rest")
        case True
        then have "(d, cb) \<in> set (timers ?s1)"
          by simp
        from "1.IH" [OF Cons x [symmetric] \<open>d' \<le> t\<close> c1 this] show ?thesis
          unfolding f .
      next
        case False
        then have eq: "d' = d" "cb' = cb"
          using "1.prems"(2) Cons x by auto
        have "case cb of ArmScroll \<Rightarrow> 0 < listeners ?s1
              | ScrollToTop \<Rightarrow> d \<in> set (scrollTo_times ?s1)"
        proof (cases cb)
          case ArmScroll
          then show ?thesis
            using exec_ArmScroll [OF c0] eq by simp
        next
          case ScrollToTop
          then show ?thesis
            using exec_ScrollToTop [OF c0] eq by simp
        qed
        then have "case cb of ArmScroll \<Rightarrow> 0 < listeners (fire_due t ?s1)
              | ScrollToTop \<Rightarrow> d \<in> set (scrollTo_times (fire_due t ?s1))"
          using fire_due_mono [of ?s1 t] by (cases cb) auto
        then show ?thesis
          unfolding f by (rule disjI2)
      qed
    next
      case False
      then show ?thesis
        using Cons x "1.prems" by (simp add: fire_due.simps [of t s])
    qed
  qed
qed


lemma armed_at_snoc:
  assumes "t' \<le> t"
  shows "armed_at (evs @ [(t, e)]) t' \<longleftrightarrow> armed_at evs t'"
  using assms unfolding armed_at_def by auto

lemma triggered_by_snoc:
  assumes "\<forall>ev \<in> set evs. fst ev \<le> t" "triggered_by (evs @ [(t, e)]) T"
  shows "triggered_by evs T \<or>
         (case e of Click \<Rightarrow> False
          | Scroll m \<Rightarrow> isAtBottom m \<and> armed_at evs t \<and> T = t + 1000)"
proof -
  from assms(2) obtain ev where ev: "ev \<in> set (evs @ [(t, e)])"
    and h: "case snd ev of Click \<Rightarrow> False
            | Scroll m \<Rightarrow> isAtBottom m \<and> armed_at (evs @ [(t, e)]) (fst ev) \<and> T = fst ev + 1000"
    unfolding triggered_by_alt by blast
  have le: "fst ev \<le> t"
    using ev assms(1) by auto
  from h have h': "case snd ev of Click \<Rightarrow> False
            | Scroll m \<Rightarrow> isAtBottom m \<and> armed_at evs (fst ev) \<and> T = fst ev + 1000"
    by (cases "snd ev") (simp_all add: armed_at_snoc [OF le])
  show ?thesis
  proof (cases "ev \<in> set evs")
    case True
    with h' have "triggered_by evs T"
      unfolding triggered_by_alt by blast
    then show ?thesis ..
  next
    case False
    with ev have "ev = (t, e)"
      by simp
    with h' show ?thesis
      by (cases e) auto
  qed
qed

lemma handle_listeners [simp]: "listeners (handle e s) = listeners s"
  by (cases e) (simp_all add: listeners_def handle_Click(2) handle_Scroll(1) del: handle.simps)

lemma handle_scrollTo_times [simp]: "scrollTo_times (handle e s) = scrollTo_times s"
  by (cases e) (simp_all add: scrollTo_times_def handle_Click(2) handle_Scroll(1) del: handle.simps)

lemma handle_content [simp]: "cardContentElement (handle e s) = cardContentElement s"
  by (cases e) (simp_all add: handle_Click(2) handle_Scroll(1) del: handle.simps)

lemma handle_timers_mono: "set (timers s) \<subseteq> set (timers (handle e s))"
  by (cases e) (auto simp: handle_Click(1) handle_Scroll(2) simp del: handle.simps)

lemma scroll_listeners_sorted:
  "sorted (map fst (timers s)) \<Longrightarrow> sorted (map fst (timers (((scroll_listener m) ^^ k) s)))"
  by (induction k) (auto simp: scroll_listener_def setTimeout_def sorted_enqueue)

lemma handle_sorted:
  "sorted (map fst (timers s)) \<Longrightarrow> sorted (map fst (timers (handle e s)))"
  by (cases e)
     (auto simp: open_envelope_click_def Let_def setTimeout_def sorted_enqueue
        scroll_listeners_sorted split: option.splits)

lemma deliver_live:
  assumes "inv_live evs s" "\<forall>ev \<in> set evs. fst ev \<le> t"
  shows "inv_live (evs @ [(t, e)]) (deliver s (t, e))"
proof -
  let ?evs = "evs @ [(t, e)]"
  let ?s1 = "fire_due t s"
  let ?s2 = "?s1\<lparr>now := t\<rparr>"
  let ?s3 = "handle e ?s2"
  have d: "deliver s (t, e) = ?s3"
    by (simp add: deliver_def)
  have c: "cardContentElement s \<noteq> None" and so: "sorted (map fst (timers s))"
    using assms(1) unfolding inv_live_def by auto
  have c1: "cardContentElement ?s1 \<noteq> None"
    using c by (simp add: fire_due_content)
  have so1: "sorted (map fst (timers ?s1))" and after: "\<forall>x \<in> set (timers ?s1). t < fst x"
    using fire_due_sorted [OF so, of t] by auto
  have l2: "listeners ?s2 = listeners ?s1" and t2: "timers ?s2 = timers ?s1"
    and k2: "scrollTo_times ?s2 = scrollTo_times ?s1"
    by (simp_all add: listeners_def scrollTo_times_def)
  have mono: "set (timers ?s1) \<subseteq> set (timers ?s3)"
    using handle_timers_mono [of ?s2 e] by (simp add: t2)
  have clicks: "(fst ev + 1000, ArmScroll) \<in> set (timers ?s1) \<or> 0 < listeners ?s1"
    if "ev \<in> set evs" "snd ev = Click" for ev
  proof -
    from assms(1) that have "(fst ev + 1000, ArmScroll) \<in> set (timers s) \<or> 0 < listeners s"
      unfolding inv_live_def by auto
    then show ?thesis
    proof
      assume "(fst ev + 1000, ArmScroll) \<in> set (timers s)"
      from fire_due_served [OF c this, of t] show ?thesis
        by simp
    next
      assume "0 < listeners s"
      then show ?thesis
        using fire_due_mono [of s t] by auto
    qed
  qed
  have armed: "0 < listeners ?s1" if "armed_at evs t"
  proof -
    from that obtain ev where ev: "ev \<in> set evs" "snd ev = Click" "fst ev + 1000 \<le> t"
      unfolding armed_at_def by blast
    from clicks [OF ev(1,2)] after ev(3) show ?thesis
      by force
  qed
  have i1: "cardContentElement ?s3 \<noteq> None"
    using c1 by simp
  have i2: "sorted (map fst (timers ?s3))"
    by (rule handle_sorted) (simp add: so1)
  have i3: "(fst ev + 1000, ArmScroll) \<in> set (timers ?s3) \<or> 0 < listeners ?s3"
    if "ev \<in> set ?evs" "snd ev = Click" for ev
  proof (cases "ev \<in> set evs")
    case True
    from clicks [OF True that(2)] mono show ?thesis
      by (auto simp: l2)
  next
    case False
    with that have e: "ev = (t, e)" "e = Click"
      by auto
    have "(t + 1000, ArmScroll) \<in> set (timers (handle Click ?s2))"
      using c1 by (auto simp: handle_Click(1) simp del: handle.simps)
    then show ?thesis
      using e by simp
  qed
  have i4: "(T, ScrollToTop) \<in> set (timers ?s3) \<or> T \<in> set (scrollTo_times ?s3)"
    if "triggered_by ?evs T" for T
  proof -
    from triggered_by_snoc [OF assms(2) that]
    show ?thesis
    proof
      assume "triggered_by evs T"
      with assms(1) have "(T, ScrollToTop) \<in> set (timers s) \<or> T \<in> set (scrollTo_times s)"
        unfolding inv_live_def by blast
      then have "(T, ScrollToTop) \<in> set (timers ?s1) \<or> T \<in> set (scrollTo_times ?s1)"
      proof
        assume "(T, ScrollToTop) \<in> set (timers s)"
        from fire_due_served [OF c this, of t] show ?thesis
          by simp
      next
        assume "T \<in> set (scrollTo_times s)"
        then show ?thesis
          using fire_due_mono [of s t] by auto
      qed
      with mono show ?thesis
        by (auto simp: k2)
    next
      assume h: "case e of Click \<Rightarrow> False
                 | Scroll m \<Rightarrow> isAtBottom m \<and> armed_at evs t \<and> T = t + 1000"
      then obtain m where m: "e = Scroll m" "isAtBottom m" "armed_at evs t" "T = t + 1000"
        by (cases e) auto
      have "0 < listeners ?s2"
        using armed [OF m(3)] by (simp add: l2)
      then have "(t + 1000, ScrollToTop) \<in> set (timers (handle (Scroll m) ?s2))"
        using m(2) by (simp add: handle_Scroll(2) del: handle.simps)
      then show ?thesis
        using m by simp
    qed
  qed
  show ?thesis
    unfolding inv_live_def d
  proof (intro conjI ballI impI allI)
    show "cardContentElement ?s3 \<noteq> None"
      by (rule i1)
    show "sorted (map fst (timers ?s3))"
      by (rule i2)
  next
    fix ev assume "ev \<in> set ?evs" "snd ev = Click"
    then show "(fst ev + 1000, ArmScroll) \<in> set (timers ?s3) \<or> 0 < listeners ?s3"
      by (rule i3)
  next
    fix T assume "triggered_by ?evs T"
    then show "(T, ScrollToTop) \<in> set (timers ?s3) \<or> T \<in> set (scrollTo_times ?s3)"
      by (rule i4)
  qed
qed

lemma play_live:
  assumes "sorted (map fst evs)" "loaded s" "cardContentElement s \<noteq> None"
  shows "inv_live evs (play evs s)"
  using assms
proof (induction evs rule: rev_induct)
  case Nil
  then show ?case
    by (simp add: inv_live_def play_def loaded_def triggered_by_def)
next
  case (snoc ev evs)
  obtain t e where ev: "ev = (t, e)" by (cases ev)
  from snoc.prems(1) have "sorted (map fst evs)" "\<forall>x \<in> set evs. fst x \<le> t"
    by (auto simp: sorted_append ev)
  with snoc.IH snoc.prems(2,3) have "inv_live (evs @ [(t, e)]) (deliver (play evs s) (t, e))"
    by (intro deliver_live) auto
  then show ?case
    by (simp add: play_def ev)
qed

text \<open>
  C5: whatever clicks and scroll events reach a freshly loaded control, in the order of
  their times, every call of \<^verbatim>\<open>scrollTo\<close> is made exactly 1000 after a scroll event whose
  listener read \<^verbatim>\<open>scrollHeight - scrollTop <= clientHeight + 5\<close>, and that scroll event came
  at least 1000 after a click. And every such scroll event is followed, exactly 1000 later,
  by a call of \<^verbatim>\<open>scrollTo\<close> (where the content element exists and the time is watched that
  long).
\<close>

theorem scroll_back_exactly_when:
  assumes "sorted (map fst evs)" "loaded s"
  shows "(\<forall>T \<in> set (scrollTo_times (fire_due horizon (play evs s))). triggered_by evs T) \<and>
         (cardContentElement s \<noteq> None \<longrightarrow>
            (\<forall>T. triggered_by evs T \<and> T \<le> horizon \<longrightarrow>
                 T \<in> set (scrollTo_times (fire_due horizon (play evs s)))))"
proof (intro conjI impI allI)
  show "\<forall>T \<in> set (scrollTo_times (fire_due horizon (play evs s))). triggered_by evs T"
  proof (rule fire_due_scrollTo_times)
    have i: "inv evs (play evs s)"
      using assms by (rule play_inv)
    show "\<forall>x \<in> set (timers (play evs s)). snd x = ScrollToTop \<longrightarrow> triggered_by evs (fst x)"
      using i unfolding inv_def by force
    show "\<forall>T \<in> set (scrollTo_times (play evs s)). triggered_by evs T"
      using i unfolding inv_def by blast
  qed
next
  fix T
  assume c: "cardContentElement s \<noteq> None" and T: "triggered_by evs T \<and> T \<le> horizon"
  let ?p = "play evs s"
  have i: "inv_live evs ?p"
    using assms c by (rule play_live)
  then have cp: "cardContentElement ?p \<noteq> None" and so: "sorted (map fst (timers ?p))"
    and "(T, ScrollToTop) \<in> set (timers ?p) \<or> T \<in> set (scrollTo_times ?p)"
    using T unfolding inv_live_def by auto
  then show "T \<in> set (scrollTo_times (fire_due horizon ?p))"
  proof (elim disjE)
    assume "(T, ScrollToTop) \<in> set (timers ?p)"
    from fire_due_served [OF cp this, of horizon] fire_due_sorted [OF so, of horizon] T
    show ?thesis
      by force
  next
    assume "T \<in> set (scrollTo_times ?p)"
    then show ?thesis
      using fire_due_mono [of ?p horizon] by auto
  qed
qed

theorem scroll_back_exactly_when_witness:
  "sorted (map fst [(0::nat, Click), (500, Scroll bottom), (1500, Scroll bottom), (1600, Scroll middle)]) \<and>
   loaded closed_card \<and> cardContentElement closed_card \<noteq> None \<and>
   triggered_by [(0, Click), (500, Scroll bottom), (1500, Scroll bottom), (1600, Scroll middle)] 2500 \<and>
   2500 \<in> set (scrollTo_times (fire_due 5000
     (play [(0, Click), (500, Scroll bottom), (1500, Scroll bottom), (1600, Scroll middle)]
        closed_card))) \<and>
   \<not> triggered_by [(0, Click), (500, Scroll bottom), (1500, Scroll bottom), (1600, Scroll middle)] 1500 \<and>
   1500 \<notin> set (scrollTo_times (fire_due 5000
     (play [(0, Click), (500, Scroll bottom), (1500, Scroll bottom), (1600, Scroll middle)]
        closed_card)))"
proof -
  let ?evs = "[(0::nat, Click), (500, Scroll bottom), (1500, Scroll bottom), (1600, Scroll middle)]"
  have s: "sorted (map fst ?evs)"
    by simp
  have l: "loaded closed_card"
    by (simp add: loaded_def closed_card_def listeners_def scrollTo_times_def)
  have c: "cardContentElement closed_card \<noteq> None"
    by (simp add: closed_card_def)
  have b: "isAtBottom bottom"
    by (simp add: isAtBottom_def bottom_def minus_number_def num_eval cong: let_weak_cong)
  have t: "triggered_by ?evs 2500"
    by (simp add: triggered_by_alt armed_at_def b)
  have n: "\<not> triggered_by ?evs 1500"
    by (simp add: triggered_by_alt armed_at_def)
  from scroll_back_exactly_when [OF s l, of 5000] c t n
  have "2500 \<in> set (scrollTo_times (fire_due 5000 (play ?evs closed_card)))"
    and "1500 \<notin> set (scrollTo_times (fire_due 5000 (play ?evs closed_card)))"
    by auto
  with s l c t n show ?thesis
    by blast
qed

text \<open>
  The comparison rounds: with the example values the difference is the Number 305, although
  the exact difference is larger than 305.
\<close>

lemma isAtBottom_rounds:
  "isAtBottom bottom \<and>
   scrollTop bottom = Finite (6685030696878079 / 2 ^ 46) \<and>
   minus_number (scrollHeight bottom) (scrollTop bottom) = Finite 305 \<and>
   \<not> (400 - 6685030696878079 / 2 ^ 46 \<le> (305::rat))"
  by (simp add: isAtBottom_def bottom_def minus_number_def num_eval cong: let_weak_cong)

lemma addClass_twice: "addClass c (addClass c cs) = addClass c cs"
  by (simp add: addClass_def)

lemma removeClass_addClass:
  "c \<noteq> d \<Longrightarrow> removeClass c (addClass d (removeClass c cs)) = addClass d (removeClass c cs)"
  by (simp add: addClass_def removeClass_def)

lemma open_tossing: "''tossing'' \<noteq> ''open''"
  by simp

text \<open>
  C6: a second click leaves the classes of the envelope and of the card, and the faded
  heart, as the first click left them: \<^verbatim>\<open>open\<close> stays, \<^verbatim>\<open>tossing\<close> stays away.
\<close>

theorem second_click_keeps_classes:
  assumes "open_envelope_click s = Inr s1" "open_envelope_click s1 = Inr s2"
  shows "envelope s2 = envelope s1 \<and> envelope_card s2 = envelope_card s1 \<and>
         heart_use s2 = heart_use s1 \<and>
         list_all (\<lambda>cs. ''open'' \<in> set cs \<and> ''tossing'' \<notin> set cs) (envelope s2) \<and>
         list_all (\<lambda>cs. ''open'' \<in> set cs) (envelope_card s2)"
proof -
  let ?f = "\<lambda>cs. addClass ''open'' (removeClass ''tossing'' cs)"
  have e1: "envelope s1 = map ?f (envelope s)" and c1: "envelope_card s1 = map (addClass ''open'') (envelope_card s)"
    and h1: "heart_use s1 = map (\<lambda>u. True) (heart_use s)"
    using assms(1) by (auto simp: open_envelope_click_def Let_def split: option.splits)
  have e2: "envelope s2 = map ?f (envelope s1)" and c2: "envelope_card s2 = map (addClass ''open'') (envelope_card s1)"
    and h2: "heart_use s2 = map (\<lambda>u. True) (heart_use s1)"
    using assms(2) by (auto simp: open_envelope_click_def Let_def split: option.splits)
  have ff: "?f (?f cs) = ?f cs" for cs
    by (simp only: removeClass_addClass [OF open_tossing] addClass_twice)
  have "envelope s2 = envelope s1"
    unfolding e2 e1 by (simp add: ff del: One_nat_def)
  moreover have "envelope_card s2 = envelope_card s1"
    unfolding c2 c1 by (simp add: addClass_twice)
  moreover have "heart_use s2 = heart_use s1"
    unfolding h2 h1 by simp
  moreover have "''open'' \<in> set (?f cs) \<and> ''tossing'' \<notin> set (?f cs)" for cs
    by (auto simp: addClass_def removeClass_def)
  then have "list_all (\<lambda>cs. ''open'' \<in> set cs \<and> ''tossing'' \<notin> set cs) (envelope s2)"
    unfolding e2 list_all_iff by auto
  moreover have "''open'' \<in> set (addClass ''open'' cs)" for cs
    by (auto simp: addClass_def)
  then have "list_all (\<lambda>cs. ''open'' \<in> set cs) (envelope_card s2)"
    unfolding c2 list_all_iff by auto
  ultimately show ?thesis
    by blast
qed

theorem second_click_keeps_classes_witness:
  "open_envelope_click closed_card = Inr opened_card \<and>
   open_envelope_click opened_card = Inr (opened_card\<lparr>timers := [(1000, ArmScroll), (1000, ArmScroll)]\<rparr>) \<and>
   envelope (opened_card\<lparr>timers := [(1000, ArmScroll), (1000, ArmScroll)]\<rparr>) = envelope opened_card"
proof -
  have 1: "open_envelope_click closed_card = Inr opened_card"
    by (simp add: open_envelope_click_def closed_card_def opened_card_def addClass_def
          removeClass_def setTimeout_def)
  have 2: "open_envelope_click opened_card =
           Inr (opened_card\<lparr>timers := [(1000, ArmScroll), (1000, ArmScroll)]\<rparr>)"
    by (simp add: open_envelope_click_def opened_card_def addClass_def removeClass_def
          setTimeout_def)
  from second_click_keeps_classes [OF 1 2] 1 2 show ?thesis
    by blast
qed

text \<open>
  C7, in the form that holds of the code: the click handler never raises. Without a card
  content element it changes the classes, fades the heart and skips the scroll arming: no
  timer is set. The text decorator never raises either; without a matched paragraph it
  does nothing.
\<close>

theorem missing_elements_tolerated:
  "(cardContentElement s = None \<longrightarrow>
      open_envelope_click s =
        Inr (s\<lparr>envelope := map (\<lambda>cs. addClass ''open'' (removeClass ''tossing'' cs)) (envelope s),
               envelope_card := map (addClass ''open'') (envelope_card s),
               heart_use := map (\<lambda>u. True) (heart_use s)\<rparr>)) \<and>
   open_envelope_click s \<noteq> Inl e \<and>
   textElements_forEach numstr [] = Inr [] \<and>
   textElements_forEach numstr innerHTMLs \<noteq> Inl e"
  by (simp add: open_envelope_click_def textElements_forEach_def Let_def split: option.splits)

theorem missing_elements_tolerated_witness:
  "cardContentElement no_content_card = None \<and>
   timers (projr (open_envelope_click no_content_card)) = [] \<and>
   textElements_forEach (\<lambda>k. []) [] = Inr []"
  using missing_elements_tolerated [of no_content_card TypeError "\<lambda>k. []" "[]"]
  by (simp add: no_content_card_def)

text \<open>
  A click on a control without card content element completes and sets no timer.
\<close>

theorem missing_content_is_skipped:
  "open_envelope_click no_content_card =
     Inr \<lparr>envelope = [[''envelope'', ''open'']], envelope_card = [[''envelope__card'', ''open'']],
          heart_use = [True], cardContentElement = None, now = 0, timers = []\<rparr> \<and>
   open_envelope_click no_content_card \<noteq> Inl TypeError"
  by (simp add: open_envelope_click_def no_content_card_def addClass_def removeClass_def)

section \<open>Properties of the background music trigger\<close>

text \<open>
  C8: every click calls \<^verbatim>\<open>play()\<close> once more, whatever the number of calls made before:
  \<open>n\<close> clicks make \<open>n\<close> calls.
\<close>

theorem every_click_plays:
  "document_click (Some a) = Inr (Some (a\<lparr>playCalls := playCalls a + 1\<rparr>)) \<and>
   document_clicks n (Some a) = Some (a\<lparr>playCalls := playCalls a + n\<rparr>)"
proof
  show "document_click (Some a) = Inr (Some (a\<lparr>playCalls := playCalls a + 1\<rparr>))"
    by (simp add: document_click_def)
  show "document_clicks n (Some a) = Some (a\<lparr>playCalls := playCalls a + n\<rparr>)"
    by (induction n arbitrary: a) (simp_all add: document_click_def)
qed

text \<open>
  C10: a click raises a \<^verbatim>\<open>TypeError\<close> exactly when no element with id \<^verbatim>\<open>bgm\<close>
  exists.
\<close>

theorem click_without_bgm:
  "(document_click bgm = Inl TypeError) = (bgm = None)"
  by (cases bgm) (simp_all add: document_click_def)

end
